theory Spec2Isabelle
  imports Main
begin

section \<open>Strings\<close>

text \<open>
  A JavaScript string is a sequence of UTF-16 code units. The model is the list of
  the code units below 256 (a HOL \<open>char\<close> read as one code unit of the Latin-1 range).
  White space (\<open>String.prototype.trim\<close> and the class \<open>\s\<close>) and line terminators
  (what \<open>.\<close> refuses) are the members of ECMAScript's sets in that range; the line
  terminators U+2028 and U+2029 lie beyond it.
\<close>

definition isLineTerminator :: "char \<Rightarrow> bool" where
  "isLineTerminator c = (c \<in> set [CHR 0x0A, CHR 0x0D])"

definition isWhiteSpace :: "char \<Rightarrow> bool" where
  "isWhiteSpace c =
     (c \<in> set [CHR 0x09, CHR 0x0A, CHR 0x0B, CHR 0x0C, CHR 0x0D, CHR 0x20, CHR 0xA0])"

definition isDigit :: "char \<Rightarrow> bool" where
  "isDigit c = (c \<in> set ''0123456789'')"

definition isLetter :: "char \<Rightarrow> bool" where
  "isLetter c = (c \<in> set ''abcdefghijklmnopqrstuvwxyzABCDEFGHIJKLMNOPQRSTUVWXYZ'')"

text \<open>The class \<open>\w\<close>, which is \<open>[A-Za-z0-9_]\<close>.\<close>

definition isWordChar :: "char \<Rightarrow> bool" where
  "isWordChar c = (isLetter c \<or> isDigit c \<or> c = CHR ''_'')"

text \<open>The classes \<open>[a-zA-Z_$]\<close> and \<open>[a-zA-Z0-9_$]\<close>.\<close>

definition isIdentStart :: "char \<Rightarrow> bool" where
  "isIdentStart c = (isLetter c \<or> c = CHR ''_'' \<or> c = CHR ''$'')"

definition isIdentChar :: "char \<Rightarrow> bool" where
  "isIdentChar c = (isWordChar c \<or> c = CHR ''$'')"

text \<open>The class \<open>[\s\S]\<close> takes every code unit; \<open>.\<close> takes all but line terminators.\<close>

definition anyChar :: "char \<Rightarrow> bool" where
  "anyChar c = True"

definition dotChar :: "char \<Rightarrow> bool" where
  "dotChar c = (\<not> isLineTerminator c)"

definition upperChars :: string where
  "upperChars = ''ABCDEFGHIJKLMNOPQRSTUVWXYZ'' @
     [CHR 0xC0, CHR 0xC1, CHR 0xC2, CHR 0xC3, CHR 0xC4, CHR 0xC5, CHR 0xC6, CHR 0xC7,
      CHR 0xC8, CHR 0xC9, CHR 0xCA, CHR 0xCB, CHR 0xCC, CHR 0xCD, CHR 0xCE, CHR 0xCF,
      CHR 0xD0, CHR 0xD1, CHR 0xD2, CHR 0xD3, CHR 0xD4, CHR 0xD5, CHR 0xD6,
      CHR 0xD8, CHR 0xD9, CHR 0xDA, CHR 0xDB, CHR 0xDC, CHR 0xDD, CHR 0xDE]"

definition lowerChars :: string where
  "lowerChars = ''abcdefghijklmnopqrstuvwxyz'' @
     [CHR 0xE0, CHR 0xE1, CHR 0xE2, CHR 0xE3, CHR 0xE4, CHR 0xE5, CHR 0xE6, CHR 0xE7,
      CHR 0xE8, CHR 0xE9, CHR 0xEA, CHR 0xEB, CHR 0xEC, CHR 0xED, CHR 0xEE, CHR 0xEF,
      CHR 0xF0, CHR 0xF1, CHR 0xF2, CHR 0xF3, CHR 0xF4, CHR 0xF5, CHR 0xF6,
      CHR 0xF8, CHR 0xF9, CHR 0xFA, CHR 0xFB, CHR 0xFC, CHR 0xFD, CHR 0xFE]"

text \<open>\<open>toLowerCase\<close> on one code unit: the letters A-Z and the Latin-1 capitals.\<close>

definition toLowerChar :: "char \<Rightarrow> char" where
  "toLowerChar c = (case map_of (zip upperChars lowerChars) c of Some l \<Rightarrow> l | None \<Rightarrow> c)"

definition toLowerCase :: "string \<Rightarrow> string" where
  "toLowerCase s = map toLowerChar s"

definition trim :: "string \<Rightarrow> string" where
  "trim s = rev (dropWhile isWhiteSpace (rev (dropWhile isWhiteSpace s)))"

definition startsWith :: "string \<Rightarrow> string \<Rightarrow> bool" where
  "startsWith s p = (take (length p) s = p)"

definition endsWith :: "string \<Rightarrow> string \<Rightarrow> bool" where
  "endsWith s p = (length p \<le> length s \<and> drop (length s - length p) s = p)"

text \<open>\<open>s.includes(p)\<close>: \<open>p\<close> occurs in \<open>s\<close> at some index.\<close>

fun includesStr :: "string \<Rightarrow> string \<Rightarrow> bool" where
  "includesStr [] p = (p = [])"
| "includesStr (c # cs) p = (startsWith (c # cs) p \<or> includesStr cs p)"

text \<open>\<open>s.substring(0, n)\<close> for a natural \<open>n\<close>; an \<open>n\<close> beyond the end gives the whole string.\<close>

definition substring0 :: "string \<Rightarrow> nat \<Rightarrow> string" where
  "substring0 s n = take n s"

text \<open>\<open>s.split('\n')\<close>: never empty, the empty string gives one empty piece.\<close>

fun splitLines :: "string \<Rightarrow> string list" where
  "splitLines [] = [[]]"
| "splitLines (c # cs) =
     (if c = CHR 0x0A then [] # splitLines cs
      else (case splitLines cs of [] \<Rightarrow> [[c]] | l # ls \<Rightarrow> (c # l) # ls))"

text \<open>\<open>xs.join('\n')\<close>.\<close>

fun joinLines :: "string list \<Rightarrow> string" where
  "joinLines [] = []"
| "joinLines [l] = l"
| "joinLines (l # ls) = l @ CHR 0x0A # joinLines ls"

section \<open>Regular expressions\<close>

text \<open>
  A regular expression is embedded as a backtracking matcher in continuation style, the
  way the ECMAScript specification defines matching: a pattern takes the continuation
  for what follows it and the rest of the input, and answers with the first success in
  the priority order of its alternatives. The last continuation returns the input left
  after the match.
\<close>

type_synonym cont = "string \<Rightarrow> string option"
type_synonym regex = "cont \<Rightarrow> cont"

text \<open>One code unit of a class.\<close>

fun chr :: "(char \<Rightarrow> bool) \<Rightarrow> regex" where
  "chr P k [] = None"
| "chr P k (c # cs) = (if P c then k cs else None)"

text \<open>A literal text.\<close>

fun lit :: "string \<Rightarrow> regex" where
  "lit [] k s = k s"
| "lit (x # xs) k s = chr (\<lambda>c. c = x) (lit xs k) s"

text \<open>A literal text under the flag \<open>i\<close>.\<close>

fun litCI :: "string \<Rightarrow> regex" where
  "litCI [] k s = k s"
| "litCI (x # xs) k s = chr (\<lambda>c. toLowerChar c = toLowerChar x) (litCI xs k) s"

text \<open>\<open>X*\<close> for a class \<open>X\<close>: greedy, one more code unit is tried first.\<close>

fun star :: "(char \<Rightarrow> bool) \<Rightarrow> regex" where
  "star P k [] = k []"
| "star P k (c # cs) =
     (if P c then (case star P k cs of Some r \<Rightarrow> Some r | None \<Rightarrow> k (c # cs))
      else k (c # cs))"

text \<open>\<open>X+\<close>.\<close>

definition plus1 :: "(char \<Rightarrow> bool) \<Rightarrow> regex" where
  "plus1 P k = chr P (star P k)"

text \<open>\<open>X*?\<close>: lazy, the continuation is tried first.\<close>

fun lazy :: "(char \<Rightarrow> bool) \<Rightarrow> regex" where
  "lazy P k [] = k []"
| "lazy P k (c # cs) =
     (case k (c # cs) of Some r \<Rightarrow> Some r
      | None \<Rightarrow> if P c then lazy P k cs else None)"

text \<open>\<open>X?\<close>: greedy.\<close>

fun opt :: "(char \<Rightarrow> bool) \<Rightarrow> regex" where
  "opt P k [] = k []"
| "opt P k (c # cs) =
     (if P c then (case k cs of Some r \<Rightarrow> Some r | None \<Rightarrow> k (c # cs))
      else k (c # cs))"

text \<open>\<open>(w1|w2|...)\<close> over literal words, left to right.\<close>

fun alts :: "string list \<Rightarrow> regex" where
  "alts [] k s = None"
| "alts (w # ws) k s = (case lit w k s of Some r \<Rightarrow> Some r | None \<Rightarrow> alts ws k s)"

text \<open>\<open>$\<close> without the flag \<open>m\<close>: the end of the input.\<close>

definition eoi :: regex where
  "eoi k s = (if s = [] then k s else None)"

text \<open>\<open>\b\<close>; \<open>prevWord\<close> tells whether the code unit before this point is of \<open>\w\<close>.\<close>

definition wordBoundary :: "bool \<Rightarrow> regex" where
  "wordBoundary prevWord k s =
     (let nextWord = (case s of [] \<Rightarrow> False | c # _ \<Rightarrow> isWordChar c)
      in if prevWord \<noteq> nextWord then k s else None)"

text \<open>A capture group that ends the pattern: the answer is the text the group took.\<close>

definition capture :: "regex \<Rightarrow> cont" where
  "capture re g = re (\<lambda>r. Some (take (length g - length r) g)) g"

text \<open>\<open>re.test(s)\<close> for a pattern that begins with \<open>^\<close>.\<close>

definition test :: "regex \<Rightarrow> string \<Rightarrow> bool" where
  "test re s = (re Some s \<noteq> None)"

text \<open>
  \<open>s.replace(re, '')\<close> for a pattern that begins with \<open>^\<close> (no flag \<open>m\<close>, no flag
  \<open>g\<close>): it can match at index 0 only.
\<close>

definition replaceAnchored :: "regex \<Rightarrow> string \<Rightarrow> string" where
  "replaceAnchored re s = (case re Some s of Some r \<Rightarrow> r | None \<Rightarrow> s)"

text \<open>
  The leftmost match of a pattern without \<open>^\<close>: the start indices are tried from 0 on.
  The answer is the text before the match and the answer of the matcher.
\<close>

fun search :: "cont \<Rightarrow> string \<Rightarrow> (string \<times> string) option" where
  "search m [] = (case m [] of Some r \<Rightarrow> Some ([], r) | None \<Rightarrow> None)"
| "search m (c # cs) =
     (case m (c # cs) of Some r \<Rightarrow> Some ([], r)
      | None \<Rightarrow> (case search m cs of Some (p, r) \<Rightarrow> Some (c # p, r) | None \<Rightarrow> None))"

text \<open>\<open>s.replace(re, '')\<close> for a pattern without \<open>^\<close>: the leftmost match is cut out.\<close>

definition replaceFirst :: "regex \<Rightarrow> string \<Rightarrow> string" where
  "replaceFirst re s = (case search (re Some) s of Some (p, r) \<Rightarrow> p @ r | None \<Rightarrow> s)"

section \<open>Response cleaning\<close>

text \<open>
  \<open>/<think>[\s\S]*$/gi\<close>. A match runs to the end of the input, where the pattern
  cannot match again, so under the flag \<open>g\<close> the first match is the only one.
\<close>

definition thinkRe :: regex where
  "thinkRe k = litCI ''<think>'' (star anyChar (eoi k))"

text \<open>\<open>/^```[\s\S]*?\n?/\<close> and \<open>/\n?```$/\<close>.\<close>

definition openFenceRe :: regex where
  "openFenceRe k = lit ''```'' (lazy anyChar (opt (\<lambda>c. c = CHR 0x0A) k))"

definition closeFenceRe :: regex where
  "closeFenceRe k = opt (\<lambda>c. c = CHR 0x0A) (lit ''```'' (eoi k))"

text \<open>
  The lead-in patterns have one shape: \<open>/^.*?[Xx]rest.*?E/\<close>, with \<open>first\<close> the
  letters allowed at the head of the phrase and \<open>E\<close> the closing mark.
\<close>

definition leadIn :: "string \<Rightarrow> string \<Rightarrow> string \<Rightarrow> regex" where
  "leadIn first rest closing k =
     lazy dotChar (chr (\<lambda>c. c \<in> set first) (lit rest (lazy dotChar (lit closing k))))"

text \<open>\<open>/^.*?[Hh]ere'?s.*?:/\<close>.\<close>

definition heresRe :: regex where
  "heresRe k =
     lazy dotChar (chr (\<lambda>c. c \<in> set ''Hh'') (lit ''ere'' (opt (\<lambda>c. c = CHR 0x27)
       (lit ''s'' (lazy dotChar (lit '':'' k))))))"

definition generatedExplanationPatterns :: "regex list" where
  "generatedExplanationPatterns =
     [heresRe,
      leadIn ''Tt'' ''his code'' '':'',
      leadIn ''Tt'' ''he above'' '':'',
      leadIn ''Tt'' ''his will'' '':'',
      leadIn ''Tt'' ''his function'' '':'']"

definition cleanGeneratedCode :: "string \<Rightarrow> string" where
  "cleanGeneratedCode code =
     (let code1 = replaceFirst thinkRe code;
          code2 = replaceAnchored openFenceRe code1;
          code3 = replaceFirst closeFenceRe code2;
          code4 = foldl (\<lambda>c pattern. replaceAnchored pattern c) code3
                    generatedExplanationPatterns
      in trim code4)"

definition explanationPatterns :: "regex list" where
  "explanationPatterns =
     [leadIn ''Oo'' ''kay'' ''.'',
      leadIn ''Ll'' ''et's see'' ''.'',
      leadIn ''Tt'' ''he user'' ''.'',
      leadIn ''Tt'' ''he code'' ''.'',
      leadIn ''Tt'' ''he function'' ''.'',
      leadIn ''Ii'' '' need to'' ''.'',
      leadIn ''Ww'' ''e need'' ''.'',
      leadIn ''Cc'' ''omplete'' ''.'',
      leadIn ''w'' ''ants me to'' ''.'']"

definition explanationKeywords :: "string list" where
  "explanationKeywords =
     [''the user'', ''let's see'', ''okay'', ''the code'', ''the function'',
      ''wants me to'', ''complete'', ''i need'', ''we need'', ''looking at'']"

definition codePatterns :: "regex list" where
  "codePatterns =
     [\<lambda>k. chr isIdentStart (star isIdentChar (star isWhiteSpace
            (chr (\<lambda>c. c \<in> set ''=+-*/'') k))),
      \<lambda>k. lit ''return'' (plus1 isWhiteSpace k),
      \<lambda>k. chr isIdentStart (star isIdentChar (star isWhiteSpace (lit ''('' k))),
      \<lambda>k. chr isIdentStart (star isIdentChar (star isWhiteSpace (lit ''.'' k))),
      \<lambda>k. alts [''if'', ''for'', ''while'', ''switch'', ''try'', ''catch'']
            (star isWhiteSpace (lit ''('' k)),
      \<lambda>k. alts [''const'', ''let'', ''var''] (plus1 isWhiteSpace k),
      \<lambda>k. alts [''function'', ''class''] (plus1 isWhiteSpace k),
      \<lambda>k. plus1 isDigit k,
      \<lambda>k. chr (\<lambda>c. c \<in> set [CHR 0x22, CHR 0x27]) k,
      \<lambda>k. chr (\<lambda>c. c \<in> set ''{}[];'') k,
      \<lambda>k. lit ''a'' (wordBoundary True k),
      \<lambda>k. lit ''b'' (wordBoundary True k),
      \<lambda>k. lit ''+'' k,
      \<lambda>k. lit ''-'' k,
      \<lambda>k. lit ''*'' k,
      \<lambda>k. lit ''/'' k]"

definition looksLikeCode :: "string \<Rightarrow> bool" where
  "looksLikeCode line =
     (if line = [] then False
      else if list_ex (\<lambda>keyword. includesStr (toLowerCase line) keyword) explanationKeywords
        then False
      else list_ex (\<lambda>pattern. test pattern line) codePatterns)"

text \<open>
  The loop over the lines in \<open>cleanCompletion\<close>; \<open>codeLines\<close> is the list collected
  so far, and the two \<open>break\<close>s return it.
\<close>

fun collectCodeLines :: "string list \<Rightarrow> string list \<Rightarrow> string list" where
  "collectCodeLines [] codeLines = codeLines"
| "collectCodeLines (line # rest) codeLines =
     (let trimmed = trim line in
      if codeLines = [] \<and> trimmed = [] then collectCodeLines rest codeLines
      else if looksLikeCode trimmed then codeLines @ [line]
      else if codeLines \<noteq> [] then codeLines
      else collectCodeLines rest codeLines)"

definition cleanCompletion :: "string \<Rightarrow> string" where
  "cleanCompletion completion =
     (let completion1 = replaceFirst thinkRe completion in
      if trim completion1 = [] then []
      else
        let completion2 = replaceAnchored openFenceRe completion1;
            completion3 = replaceFirst closeFenceRe completion2;
            completion4 = foldl (\<lambda>c pattern. replaceAnchored pattern c) completion3
                            explanationPatterns;
            codeLines = collectCodeLines (splitLines completion4) []
        in trim (joinLines codeLines))"

section \<open>Context extraction\<close>

text \<open>
  A document is the list of its lines (\<open>document.lineAt(i).text\<close> is \<open>doc ! i\<close>), and a
  line holds no line terminator. \<open>lineAt\<close> throws outside the document; the functions
  below answer \<open>None\<close> there.
\<close>

type_synonym document = "string list"

text \<open>The inner loop of \<open>getFullMethodContext\<close>, over the line from right to left.\<close>

definition countBraces :: "string \<Rightarrow> int \<Rightarrow> int" where
  "countBraces line braceLevel =
     foldl (\<lambda>lvl c. if c = CHR ''}'' then lvl + 1 else if c = CHR ''{'' then lvl - 1 else lvl)
       braceLevel (rev line)"

text \<open>\<open>/^\s*\w+\s*\(/\<close>.\<close>

definition methodRe :: regex where
  "methodRe k = star isWhiteSpace (plus1 isWordChar (star isWhiteSpace (lit ''('' k)))"

definition isDeclarationLine :: "string \<Rightarrow> bool" where
  "isDeclarationLine line =
     (includesStr line ''function '' \<or> includesStr line ''const '' \<or>
      includesStr line ''let '' \<or> includesStr line ''var '' \<or> test methodRe line)"

text \<open>
  The backward loop \<open>for (let i = position.line; i >= 0; i--)\<close>, entered at line \<open>i\<close>
  with the brace level so far: \<open>Some\<close> of the line where it found a declaration,
  \<open>None\<close> when it left by the \<open>break\<close> or ran past line 0.
\<close>

fun scanBack :: "document \<Rightarrow> nat \<Rightarrow> nat \<Rightarrow> int \<Rightarrow> nat option" where
  "scanBack doc posLine i braceLevel =
     (let line = doc ! i;
          braceLevel' = countBraces line braceLevel
      in if braceLevel' \<le> 0 \<and> isDeclarationLine line then Some i
         else if int i < int posLine - 20 then None
         else if i = 0 then None
         else scanBack doc posLine (i - 1) braceLevel')"

declare scanBack.simps [simp del]

text \<open>The value of \<open>startLine\<close> after the loop and the fallback.\<close>

definition contextStartLine :: "document \<Rightarrow> nat \<Rightarrow> nat" where
  "contextStartLine doc posLine =
     (case scanBack doc posLine posLine 0 of
        Some i \<Rightarrow> i
      | None \<Rightarrow> nat (max 0 (int posLine - 15)))"

definition getFullMethodContext :: "document \<Rightarrow> nat \<times> nat \<Rightarrow> string option" where
  "getFullMethodContext doc position =
     (let posLine = fst position in
      if posLine < length doc then
        let prefix = substring0 (doc ! posLine) (snd position);
            startLine = contextStartLine doc posLine;
            contextLines = map (\<lambda>i. if i = posLine then prefix else doc ! i)
                             [startLine ..< Suc posLine]
        in Some (joinLines contextLines)
      else None)"

section \<open>Prompt detection\<close>

definition isPromptBasedGeneration :: "string \<Rightarrow> bool" where
  "isPromptBasedGeneration prefix =
     (let trimmed = trim prefix in startsWith trimmed ''// '' \<and> length trimmed > 3)"

text \<open>\<open>prefix.match(/\/\/\s*(.+)/)\<close>: the text of group 1 of the leftmost match.\<close>

definition promptRe :: cont where
  "promptRe = lit ''//'' (star isWhiteSpace (capture (plus1 dotChar)))"

definition promptMatch :: "string \<Rightarrow> string option" where
  "promptMatch prefix =
     (case search promptRe prefix of Some (before, group1) \<Rightarrow> Some group1 | None \<Rightarrow> None)"

text \<open>The value of \<open>userPrompt\<close> in \<open>handlePromptGeneration\<close>, \<open>None\<close> without a match.\<close>

definition userPromptOf :: "string \<Rightarrow> string option" where
  "userPromptOf prefix =
     (case promptMatch prefix of Some group1 \<Rightarrow> Some (trim group1) | None \<Rightarrow> None)"

section \<open>The request coordinator\<close>

text \<open>
  The provider runs on JavaScript's event loop: one task at a time, each to its end or
  to an \<open>await\<close>. The model is a world holding the provider's three debounce fields
  and the part of its surroundings they act on (the clock, the armed timers, the timer
  callbacks waiting for the HTTP reply, the calls made to promise resolvers and to the
  HTTP client), and one transition for each task.

  A request, the promise made for it, its \<open>resolve\<close> function and the timer armed in its
  executor share one number, fresh at each call. A cancellation token is a number given
  by the caller.
\<close>

text \<open>What the HTTP call of \<open>getCompletion\<close> ends with.\<close>

datatype clientOutcome = Reply string | NoChoices | Failed

text \<open>
  An inline suggestion: the request whose document and position it was computed for
  (it carries \<open>new Range(position, position)\<close>), and its text.
\<close>

type_synonym suggestion = "nat \<times> string"

record world =
  configured :: bool
  pendingResolve :: "nat option"
  lastDebounceInput :: "(nat \<times> nat) option"
  debounceTimer :: "nat option"
  clock :: nat
  timers :: "(nat \<times> nat) list"
  awaiting :: "(nat \<times> nat) list"
  resolveCalls :: "(nat \<times> suggestion option) list"
  inlinePromises :: "nat list"
  clientCalls :: "nat list"
  promptCalls :: "(nat \<times> string) list"
  cancelled :: "nat list"
  outOfRange :: "nat list"
  nextId :: nat

text \<open>
  \<open>configured\<close> is \<open>this.enabled && this.apiKey\<close>. \<open>lastDebounceInput\<close> holds the request
  (its document and position) and its token. \<open>timers\<close> are the armed timers with the
  time they are due; \<open>awaiting\<close> the suspended timer callbacks, each with its
  \<open>currentResolve\<close> and the request it sent; \<open>resolveCalls\<close> every call of a resolver
  with its argument (\<open>None\<close> is \<open>null\<close>), in order; \<open>inlinePromises\<close> the promises made by
  \<open>new Promise\<close> in the inline path; \<open>clientCalls\<close> the requests \<open>getCompletion\<close> was
  called for; \<open>promptCalls\<close> the calls of \<open>generateCodeFromPrompt\<close> with the user prompt;
  \<open>cancelled\<close> the tokens with \<open>isCancellationRequested\<close>; \<open>outOfRange\<close> the requests
  whose position has a line beyond the end of their document as it is now (the document
  object is live, and \<open>lineAt\<close> throws there).
\<close>

definition debounceDelay :: nat where
  "debounceDelay = 500"

definition initial :: "bool \<Rightarrow> world" where
  "initial c =
     \<lparr>configured = c, pendingResolve = None, lastDebounceInput = None, debounceTimer = None,
      clock = 0, timers = [], awaiting = [], resolveCalls = [], inlinePromises = [],
      clientCalls = [], promptCalls = [], cancelled = [], outOfRange = [], nextId = 0\<rparr>"

definition callResolve :: "nat \<Rightarrow> suggestion option \<Rightarrow> world \<Rightarrow> world" where
  "callResolve p v w = w\<lparr>resolveCalls := resolveCalls w @ [(p, v)]\<rparr>"

text \<open>A promise settles at the first call of its resolver; \<open>None\<close> is a pending promise.\<close>

definition settled :: "world \<Rightarrow> nat \<Rightarrow> suggestion option option" where
  "settled w p = map_of (resolveCalls w) p"

definition clearTimeout :: "nat \<Rightarrow> world \<Rightarrow> world" where
  "clearTimeout h w = w\<lparr>timers := filter (\<lambda>t. fst t \<noteq> h) (timers w)\<rparr>"

definition setTimeout :: "nat \<Rightarrow> nat \<Rightarrow> world \<Rightarrow> world" where
  "setTimeout h delay w = w\<lparr>timers := timers w @ [(h, clock w + delay)]\<rparr>"

text \<open>
  \<open>handlePromptGeneration\<close> up to its \<open>await\<close>, for the call numbered \<open>i\<close>: it returns
  \<open>null\<close> or calls \<open>generateCodeFromPrompt\<close>.
\<close>

definition handlePromptGeneration :: "nat \<Rightarrow> string \<Rightarrow> nat \<Rightarrow> world \<Rightarrow> world" where
  "handlePromptGeneration i prefix token w =
     (if token \<in> set (cancelled w) then callResolve i None w
      else case userPromptOf prefix of
             None \<Rightarrow> callResolve i None w
           | Some userPrompt \<Rightarrow> w\<lparr>promptCalls := promptCalls w @ [(i, userPrompt)]\<rparr>)"

text \<open>
  \<open>provideInlineCompletionItems\<close> for a cursor whose line prefix is \<open>prefix\<close>; the
  executor of \<open>new Promise\<close> runs within the call.
\<close>

definition provideInlineCompletionItems :: "string \<Rightarrow> nat \<Rightarrow> world \<Rightarrow> world" where
  "provideInlineCompletionItems prefix token w =
     (let i = nextId w;
          w0 = w\<lparr>nextId := Suc i\<rparr>
      in if \<not> configured w0 then callResolve i None w0
         else if isPromptBasedGeneration prefix then handlePromptGeneration i prefix token w0
         else
           let w1 = w0\<lparr>inlinePromises := inlinePromises w0 @ [i]\<rparr>;
               w2 = (case pendingResolve w1 of Some p \<Rightarrow> callResolve p None w1 | None \<Rightarrow> w1);
               w3 = w2\<lparr>pendingResolve := Some i, lastDebounceInput := Some (i, token)\<rparr>;
               w4 = (case debounceTimer w3 of Some h \<Rightarrow> clearTimeout h w3 | None \<Rightarrow> w3)
           in (setTimeout i debounceDelay w4)\<lparr>debounceTimer := Some i\<rparr>)"

text \<open>
  The timer callback after its \<open>await\<close>: the check \<open>currentResolve === this.pendingResolve\<close>,
  the call of the resolver and the \<open>finally\<close> block.
\<close>

definition resumeCallback :: "nat \<Rightarrow> suggestion option \<Rightarrow> world \<Rightarrow> world" where
  "resumeCallback currentResolve completion w =
     (if Some currentResolve = pendingResolve w
      then (callResolve currentResolve completion w)
             \<lparr>pendingResolve := None, lastDebounceInput := None\<rparr>
      else w)"

text \<open>
  The timer callback up to its \<open>await\<close>. With a cancelled token
  \<open>getCompletionWithDebounce\<close> returns \<open>null\<close> at once; the callback then resumes in a
  microtask, before any other task, so both halves are one transition. The same
  holds when the line of the stored position has left the document: \<open>lineAt\<close> throws
  within the \<open>try\<close> block, and the \<open>catch\<close> returns \<open>null\<close> before any HTTP call.
  Otherwise \<open>getCompletion\<close> sends the request and the callback waits.
\<close>

definition timerCallback :: "world \<Rightarrow> world" where
  "timerCallback w =
     (case pendingResolve w of
        None \<Rightarrow> w
      | Some currentResolve \<Rightarrow>
          (case lastDebounceInput w of
             None \<Rightarrow> w
           | Some (request, token) \<Rightarrow>
               if token \<in> set (cancelled w) then resumeCallback currentResolve None w
               else if request \<in> set (outOfRange w)
                 then resumeCallback currentResolve None w
               else w\<lparr>clientCalls := clientCalls w @ [request],
                      awaiting := awaiting w @ [(currentResolve, request)]\<rparr>))"

text \<open>The value of \<open>getCompletion\<close> for an outcome of the HTTP call.\<close>

definition getCompletion :: "clientOutcome \<Rightarrow> string option" where
  "getCompletion outcome =
     (case outcome of
        Reply content \<Rightarrow> Some (cleanCompletion (trim content))
      | NoChoices \<Rightarrow> None
      | Failed \<Rightarrow> None)"

text \<open>The value of \<open>getCompletionWithDebounce\<close> for the request once the HTTP call ended.\<close>

definition getCompletionWithDebounce :: "nat \<Rightarrow> clientOutcome \<Rightarrow> suggestion option" where
  "getCompletionWithDebounce request outcome =
     (case getCompletion outcome of
        None \<Rightarrow> None
      | Some completion \<Rightarrow> if trim completion \<noteq> [] then Some (request, completion) else None)"

datatype event =
    Provide string nat
  | Fire nat
  | Complete nat clientOutcome
  | Cancel nat
  | Elapse nat
  | UpdateConfiguration bool
  | Edit nat bool

text \<open>
  One task. \<open>Fire h\<close> runs the callback of timer \<open>h\<close> and needs it armed and due;
  \<open>Complete k outcome\<close> ends the HTTP call of the \<open>k\<close>-th waiting callback and resumes it.
  \<open>Edit request lineExists\<close> is an edit of the document of a request made before, after
  which the line of its position exists or not. An event that cannot happen gives
  \<open>None\<close>.
\<close>

fun step :: "event \<Rightarrow> world \<Rightarrow> world option" where
  "step (Provide prefix token) w = Some (provideInlineCompletionItems prefix token w)"
| "step (Fire h) w =
     (if list_ex (\<lambda>t. fst t = h \<and> snd t \<le> clock w) (timers w)
      then Some (timerCallback (clearTimeout h w))
      else None)"
| "step (Complete k outcome) w =
     (if k < length (awaiting w)
      then let currentResolve = fst (awaiting w ! k);
               request = snd (awaiting w ! k);
               w' = w\<lparr>awaiting := take k (awaiting w) @ drop (Suc k) (awaiting w)\<rparr>
           in Some (resumeCallback currentResolve (getCompletionWithDebounce request outcome) w')
      else None)"
| "step (Cancel token) w = Some (w\<lparr>cancelled := token # cancelled w\<rparr>)"
| "step (Elapse d) w = Some (w\<lparr>clock := clock w + d\<rparr>)"
| "step (UpdateConfiguration c) w = Some (w\<lparr>configured := c\<rparr>)"
| "step (Edit request lineExists) w =
     (if request < nextId w
      then Some (w\<lparr>outOfRange := (if lineExists then removeAll request (outOfRange w)
                                    else request # outOfRange w)\<rparr>)
      else None)"

fun run :: "event list \<Rightarrow> world \<Rightarrow> world option" where
  "run [] w = Some w"
| "run (e # es) w = (case step e w of None \<Rightarrow> None | Some w' \<Rightarrow> run es w')"



section \<open>Notions used in the proofs\<close>

text \<open>The marker \<open><think>\<close>, in any letter case, stands at the head of the text.\<close>

definition isThinkAt :: "string \<Rightarrow> bool" where
  "isThinkAt s = (7 \<le> length s \<and> toLowerCase (take 7 s) = ''<think>'')"

text \<open>\<open>part l s\<close>: the text \<open>l\<close> is a run of consecutive code units of \<open>s\<close>.\<close>

definition part :: "string \<Rightarrow> string \<Rightarrow> bool" where
  "part l s = (\<exists>a b. s = a @ l @ b)"

text \<open>A continuation that answers with a suffix of its input.\<close>

definition sfx :: "cont \<Rightarrow> bool" where
  "sfx k = (\<forall>s r. k s = Some r \<longrightarrow> (\<exists>p. s = p @ r))"

text \<open>
  The invariant of the coordinator. \<open>ids\<close> are the numbers in use. The parts say: the
  two fields \<open>pendingResolve\<close> and \<open>lastDebounceInput\<close> belong to the same request,
  whose promise is pending; no resolver was called twice; the waiting callbacks are of
  different requests, each sent its own request, and one that is no more current has got
  \<open>null\<close>; numbers in use are below the next one; an armed timer is the one of the
  current request, which was not sent yet; a suggestion went to the promise of the
  request it was computed for; a pending inline promise is the current one.
\<close>

definition ids :: "world \<Rightarrow> nat set" where
  "ids w = fst ` set (resolveCalls w) \<union> set (inlinePromises w) \<union> fst ` set (timers w) \<union>
           fst ` set (awaiting w) \<union> set (clientCalls w)"

definition invPending :: "world \<Rightarrow> bool" where
  "invPending w \<longleftrightarrow>
     (pendingResolve w = None \<longrightarrow> lastDebounceInput w = None) \<and>
     (\<forall>p. pendingResolve w = Some p \<longrightarrow>
        (\<exists>t. lastDebounceInput w = Some (p, t)) \<and> settled w p = None \<and>
        p \<in> set (inlinePromises w))"

definition invOnce :: "world \<Rightarrow> bool" where
  "invOnce w \<longleftrightarrow> distinct (map fst (resolveCalls w))"

definition invAwaiting :: "world \<Rightarrow> bool" where
  "invAwaiting w \<longleftrightarrow>
     distinct (map fst (awaiting w)) \<and>
     (\<forall>a \<in> set (awaiting w). snd a = fst a \<and>
        (pendingResolve w \<noteq> Some (fst a) \<longrightarrow> settled w (fst a) = Some None))"

definition invIds :: "world \<Rightarrow> bool" where
  "invIds w \<longleftrightarrow> (\<forall>i \<in> ids w. i < nextId w)"

definition invTimers :: "world \<Rightarrow> bool" where
  "invTimers w \<longleftrightarrow>
     length (timers w) \<le> 1 \<and>
     (\<forall>t \<in> set (timers w). pendingResolve w = Some (fst t) \<and> debounceTimer w = Some (fst t) \<and>
        fst t \<notin> fst ` set (awaiting w) \<and> fst t \<notin> set (clientCalls w))"

definition invContext :: "world \<Rightarrow> bool" where
  "invContext w \<longleftrightarrow>
     (\<forall>r \<in> set (resolveCalls w). \<forall>q text. snd r = Some (q, text) \<longrightarrow> q = fst r)"

definition invLive :: "world \<Rightarrow> bool" where
  "invLive w \<longleftrightarrow>
     distinct (inlinePromises w) \<and>
     (\<forall>i \<in> set (inlinePromises w). settled w i = None \<longrightarrow> pendingResolve w = Some i)"

definition coordInv :: "world \<Rightarrow> bool" where
  "coordInv w \<longleftrightarrow> invPending w \<and> invOnce w \<and> invAwaiting w \<and> invIds w \<and> invTimers w \<and>
     invContext w \<and> invLive w"

section \<open>The reasoning marker\<close>

lemma star_any_eoi: "star anyChar (eoi Some) s = Some []"
  by (induction s) (simp_all add: eoi_def anyChar_def)

lemma litCI_eq:
  "litCI xs k s =
     (if length xs \<le> length s \<and> toLowerCase (take (length xs) s) = toLowerCase xs
      then k (drop (length xs) s) else None)"
proof (induction xs arbitrary: s)
  case Nil
  then show ?case by (simp add: toLowerCase_def)
next
  case (Cons x xs)
  then show ?case by (cases s) (auto simp: toLowerCase_def)
qed

lemma toLower_think: "toLowerCase ''<think>'' = ''<think>''"
  by (simp add: toLowerCase_def toLowerChar_def upperChars_def lowerChars_def)

lemma length_think: "length ''<think>'' = 7"
  by simp

lemma thinkRe_eq: "thinkRe Some s = (if isThinkAt s then Some [] else None)"
  unfolding thinkRe_def litCI_eq star_any_eoi isThinkAt_def toLower_think length_think
  by simp

lemma search_Cons_None:
  "m (c # cs) = None \<Longrightarrow>
   search m (c # cs) = (case search m cs of Some (p, r) \<Rightarrow> Some (c # p, r) | None \<Rightarrow> None)"
  by simp

lemma search_Cons_Some: "m (c # cs) = Some r \<Longrightarrow> search m (c # cs) = Some ([], r)"
  by simp

lemma search_SomeD:
  "search m s = Some (p, r) \<Longrightarrow> \<exists>t. s = p @ t \<and> m t = Some r"
proof (induction s arbitrary: p)
  case Nil
  then show ?case by (auto split: option.splits)
next
  case (Cons c cs)
  show ?case
  proof (cases "m (c # cs)")
    case (Some r')
    with Cons.prems show ?thesis by auto
  next
    case None
    with Cons.prems obtain p' where p': "search m cs = Some (p', r)" "p = c # p'"
      by (auto split: option.splits)
    from Cons.IH [OF p'(1)] p'(2) show ?thesis by auto
  qed
qed

lemma search_think_rest: "search (thinkRe Some) s = Some (p, r) \<Longrightarrow> r = []"
  by (drule search_SomeD) (auto simp: thinkRe_eq split: if_splits)

lemma marker_length: "toLowerCase m = ''<think>'' \<Longrightarrow> length m = 7"
proof -
  assume "toLowerCase m = ''<think>''"
  then have "length (toLowerCase m) = length ''<think>''" by simp
  then show ?thesis by (simp add: toLowerCase_def)
qed

lemma isThinkAt_marker: "toLowerCase m = ''<think>'' \<Longrightarrow> isThinkAt (m @ rest)"
  by (simp add: isThinkAt_def marker_length)

lemma think_nth: "0 < n \<Longrightarrow> n < 7 \<Longrightarrow> ''<think>'' ! n \<noteq> CHR ''<''"
proof -
  assume n: "0 < n" "n < 7"
  then have "''<think>'' ! n = ''think>'' ! (n - 1)" by (cases n) simp_all
  moreover have "''think>'' ! (n - 1) \<in> set ''think>''"
    using n by (intro nth_mem) simp
  ultimately show ?thesis by auto
qed

lemma isThinkAt_append:
  assumes m: "toLowerCase m = ''<think>''" and ne: "pre \<noteq> []"
  shows "isThinkAt (pre @ m @ rest) = isThinkAt pre"
proof (cases "7 \<le> length pre")
  case True
  then show ?thesis by (simp add: isThinkAt_def)
next
  case False
  then have short: "length pre < 7" by simp
  have pos: "0 < length pre" using ne by simp
  have "\<not> isThinkAt (pre @ m @ rest)"
  proof
    assume "isThinkAt (pre @ m @ rest)"
    then have eq: "toLowerCase (take 7 (pre @ m @ rest)) = ''<think>''"
      by (simp add: isThinkAt_def)
    have len: "length m = 7" using m by (rule marker_length)
    have "toLowerCase (take 7 (pre @ m @ rest)) ! length pre
            = toLowerChar ((pre @ m @ rest) ! length pre)"
      using short len by (simp add: toLowerCase_def nth_append)
    also have "\<dots> = toLowerChar (m ! 0)"
      using len by (simp add: nth_append)
    also have "\<dots> = toLowerCase m ! 0"
      using len by (simp add: toLowerCase_def)
    also have "\<dots> = CHR ''<''" by (simp add: m)
    finally have "toLowerCase (take 7 (pre @ m @ rest)) ! length pre = CHR ''<''" .
    then have "''<think>'' ! length pre = CHR ''<''" unfolding eq .
    with think_nth [OF pos short] show False by simp
  qed
  moreover have "\<not> isThinkAt pre" using short by (simp add: isThinkAt_def)
  ultimately show ?thesis by simp
qed

lemma search_think_append:
  assumes m: "toLowerCase m = ''<think>''"
  shows "search (thinkRe Some) (pre @ m @ rest) =
           (case search (thinkRe Some) pre of
              Some (p, r) \<Rightarrow> Some (p, [])
            | None \<Rightarrow> Some (pre, []))"
proof (induction pre)
  case Nil
  have "isThinkAt (m @ rest)" using m by (rule isThinkAt_marker)
  then have t: "thinkRe Some (m @ rest) = Some []" by (simp add: thinkRe_eq)
  have e: "thinkRe Some [] = None" by (simp add: thinkRe_eq isThinkAt_def)
  show ?case
  proof (cases "m @ rest")
    case Nil
    with t e show ?thesis by simp
  next
    case (Cons a as)
    with t have "search (thinkRe Some) (m @ rest) = Some ([], [])"
      by (simp add: search_Cons_Some)
    with e show ?thesis by simp
  qed
next
  case (Cons c cs)
  have eq: "isThinkAt ((c # cs) @ m @ rest) = isThinkAt (c # cs)"
    using m by (rule isThinkAt_append) simp
  show ?case
  proof (cases "isThinkAt (c # cs)")
    case True
    with eq have "thinkRe Some (c # cs @ m @ rest) = Some []"
      and "thinkRe Some (c # cs) = Some []" by (simp_all add: thinkRe_eq)
    then show ?thesis by (simp add: search_Cons_Some)
  next
    case False
    with eq have n: "thinkRe Some (c # cs @ m @ rest) = None"
      "thinkRe Some (c # cs) = None" by (simp_all add: thinkRe_eq)
    show ?thesis
      unfolding append_Cons
        search_Cons_None [of "thinkRe Some" c "cs @ m @ rest", OF n(1)]
        search_Cons_None [of "thinkRe Some" c cs, OF n(2)] Cons.IH
      by (simp split: option.splits)
  qed
qed

lemma replaceFirst_think_append:
  assumes m: "toLowerCase m = ''<think>''"
  shows "replaceFirst thinkRe (pre @ m @ rest) = replaceFirst thinkRe pre"
proof (cases "search (thinkRe Some) pre")
  case None
  then show ?thesis
    by (simp add: replaceFirst_def search_think_append [OF m])
next
  case (Some pr)
  obtain p r where pr: "pr = (p, r)" by (cases pr)
  with Some have "r = []" by (auto dest: search_think_rest)
  with Some pr show ?thesis
    by (simp add: replaceFirst_def search_think_append [OF m])
qed

lemma search_None_iff: "search m s = None \<longleftrightarrow> (\<forall>n \<le> length s. m (drop n s) = None)"
proof (induction s)
  case Nil
  then show ?case by (simp split: option.splits)
next
  case (Cons c cs)
  have "(\<forall>n \<le> length (c # cs). m (drop n (c # cs)) = None) \<longleftrightarrow>
        m (c # cs) = None \<and> (\<forall>n \<le> length cs. m (drop n cs) = None)"
  proof
    assume a: "\<forall>n \<le> length (c # cs). m (drop n (c # cs)) = None"
    have "m (c # cs) = None" using a [rule_format, of 0] by simp
    moreover have "\<forall>n \<le> length cs. m (drop n cs) = None"
    proof (intro allI impI)
      fix n assume "n \<le> length cs"
      then show "m (drop n cs) = None" using a [rule_format, of "Suc n"] by simp
    qed
    ultimately show "m (c # cs) = None \<and> (\<forall>n \<le> length cs. m (drop n cs) = None)" by simp
  next
    assume b: "m (c # cs) = None \<and> (\<forall>n \<le> length cs. m (drop n cs) = None)"
    show "\<forall>n \<le> length (c # cs). m (drop n (c # cs)) = None"
    proof (intro allI impI)
      fix n assume "n \<le> length (c # cs)"
      then show "m (drop n (c # cs)) = None" using b by (cases n) simp_all
    qed
  qed
  with Cons.IH show ?case by (auto split: option.splits)
qed

lemma startsWith_iff: "startsWith s p \<longleftrightarrow> (\<exists>b. s = p @ b)"
proof
  assume "startsWith s p"
  then have "s = p @ drop (length p) s"
    by (metis startsWith_def append_take_drop_id)
  then show "\<exists>b. s = p @ b" ..
next
  assume "\<exists>b. s = p @ b"
  then show "startsWith s p" by (auto simp: startsWith_def)
qed

lemma includesStr_iff: "includesStr s p \<longleftrightarrow> (\<exists>a b. s = a @ p @ b)"
proof (induction s)
  case Nil
  then show ?case by auto
next
  case (Cons c cs)
  show ?case
  proof
    assume "includesStr (c # cs) p"
    then consider "startsWith (c # cs) p" | "includesStr cs p" by auto
    then show "\<exists>a b. c # cs = a @ p @ b"
    proof cases
      case 1
      then obtain b where "c # cs = p @ b" by (auto simp: startsWith_iff)
      then have "c # cs = [] @ p @ b" by simp
      then show ?thesis by blast
    next
      case 2
      with Cons.IH obtain a b where "cs = a @ p @ b" by auto
      then have "c # cs = (c # a) @ p @ b" by simp
      then show ?thesis by blast
    qed
  next
    assume "\<exists>a b. c # cs = a @ p @ b"
    then obtain a b where ab: "c # cs = a @ p @ b" by auto
    show "includesStr (c # cs) p"
    proof (cases a)
      case Nil
      with ab have "startsWith (c # cs) p" by (auto simp: startsWith_iff)
      then show ?thesis by simp
    next
      case (Cons x xs)
      with ab have "cs = xs @ p @ b" by simp
      with Cons.IH have "includesStr cs p" by auto
      then show ?thesis by simp
    qed
  qed
qed

lemma no_think_search_None:
  assumes "\<not> includesStr (toLowerCase pre) ''<think>''"
  shows "search (thinkRe Some) pre = None"
proof -
  have "thinkRe Some (drop n pre) = None" for n
  proof (rule ccontr)
    assume "thinkRe Some (drop n pre) \<noteq> None"
    then have t: "isThinkAt (drop n pre)" by (simp add: thinkRe_eq split: if_splits)
    have "pre = take n pre @ take 7 (drop n pre) @ drop 7 (drop n pre)"
      by (simp only: append_take_drop_id)
    then have "toLowerCase pre =
        toLowerCase (take n pre) @ toLowerCase (take 7 (drop n pre)) @
        toLowerCase (drop 7 (drop n pre))"
      unfolding toLowerCase_def by (metis map_append)
    with t have "\<exists>a b. toLowerCase pre = a @ ''<think>'' @ b"
      unfolding isThinkAt_def by metis
    with assms show False by (simp add: includesStr_iff)
  qed
  then show ?thesis by (simp add: search_None_iff)
qed

lemma replaceFirst_think_first:
  assumes "toLowerCase m = ''<think>''" "\<not> includesStr (toLowerCase pre) ''<think>''"
  shows "replaceFirst thinkRe (pre @ m @ rest) = pre"
  using assms
  by (simp add: replaceFirst_def search_think_append no_think_search_None)

section \<open>Trimming\<close>

lemma trim_Nil: "trim [] = []"
  by (simp add: trim_def)




lemma trim_last: "trim s \<noteq> [] \<Longrightarrow> \<not> isWhiteSpace (last (trim s))"
proof -
  let ?X = "dropWhile isWhiteSpace (rev (dropWhile isWhiteSpace s))"
  assume "trim s \<noteq> []"
  then have "?X \<noteq> []" by (simp add: trim_def)
  then have "\<not> isWhiteSpace (hd ?X)" by (rule hd_dropWhile)
  moreover have "last (trim s) = hd ?X"
    using \<open>?X \<noteq> []\<close> by (simp add: trim_def last_rev)
  ultimately show ?thesis by simp
qed

lemma trim_hd: "trim s \<noteq> [] \<Longrightarrow> \<not> isWhiteSpace (hd (trim s))"
proof -
  let ?D = "dropWhile isWhiteSpace s"
  let ?X = "dropWhile isWhiteSpace (rev ?D)"
  assume "trim s \<noteq> []"
  then have X: "?X \<noteq> []" by (simp add: trim_def)
  have D: "?D \<noteq> []"
  proof
    assume "?D = []"
    then have "?X = []" by (simp only: rev.simps dropWhile.simps)
    with X show False by simp
  qed
  have "rev ?D = takeWhile isWhiteSpace (rev ?D) @ ?X" by simp
  then have "last (rev ?D) = last ?X" using X by (metis last_appendR)
  then have "last ?X = hd ?D" using D by (simp add: last_rev)
  moreover have "hd (trim s) = last ?X" using X by (simp add: trim_def hd_rev)
  moreover have "\<not> isWhiteSpace (hd ?D)" using D by (rule hd_dropWhile)
  ultimately show ?thesis by simp
qed

lemma trim_id: "s \<noteq> [] \<Longrightarrow> \<not> isWhiteSpace (hd s) \<Longrightarrow> \<not> isWhiteSpace (last s) \<Longrightarrow> trim s = s"
proof -
  assume s: "s \<noteq> []" "\<not> isWhiteSpace (hd s)" "\<not> isWhiteSpace (last s)"
  then have "dropWhile isWhiteSpace s = s" by (simp add: dropWhile_eq_self_iff)
  moreover have "dropWhile isWhiteSpace (rev s) = rev s"
    using s by (simp add: dropWhile_eq_self_iff hd_rev)
  ultimately show ?thesis by (simp add: trim_def)
qed

lemma trim_trim: "trim (trim s) = trim s"
proof (cases "trim s = []")
  case True
  then show ?thesis by (simp add: trim_Nil)
next
  case False
  then show ?thesis by (intro trim_id trim_hd trim_last)
qed

lemma trim_decomp:
  "\<exists>a b. s = a @ trim s @ b \<and> (\<forall>c \<in> set a. isWhiteSpace c) \<and> (\<forall>c \<in> set b. isWhiteSpace c)"
proof -
  let ?D = "dropWhile isWhiteSpace s"
  let ?a = "takeWhile isWhiteSpace s"
  let ?b = "rev (takeWhile isWhiteSpace (rev ?D))"
  have "rev ?D = takeWhile isWhiteSpace (rev ?D) @ dropWhile isWhiteSpace (rev ?D)" by simp
  then have "rev (rev ?D) = rev (takeWhile isWhiteSpace (rev ?D) @ dropWhile isWhiteSpace (rev ?D))"
    by simp
  then have "?D = trim s @ ?b" unfolding rev_append rev_rev_ident trim_def .
  moreover have "s = ?a @ ?D" by simp
  ultimately have "s = ?a @ trim s @ ?b" by simp
  moreover have "\<forall>c \<in> set ?a. isWhiteSpace c" by (auto dest: set_takeWhileD)
  moreover have "\<forall>c \<in> set ?b. isWhiteSpace c" by (auto dest: set_takeWhileD)
  ultimately show ?thesis by blast
qed

lemma set_trim: "set (trim s) \<subseteq> set s"
proof -
  obtain a b where "s = a @ trim s @ b" using trim_decomp by blast
  then have "set s = set a \<union> set (trim s) \<union> set b" by (metis set_append Un_assoc)
  then show ?thesis by auto
qed

section \<open>The prompt pattern\<close>

lemma lit_append: "lit xs k (xs @ s) = k s"
  by (induction xs) simp_all




lemma search_skip:
  "(\<forall>c \<in> set a. \<forall>s. m (c # s) = None) \<Longrightarrow> m x = Some g \<Longrightarrow>
   search m (a @ x) = Some (a, g)"
proof (induction a)
  case Nil
  then show ?case by (cases x) auto
next
  case (Cons c a)
  then show ?case by simp
qed

lemma promptRe_not_slash: "c \<noteq> CHR ''/'' \<Longrightarrow> promptRe (c # s) = None"
  by (simp add: promptRe_def)

lemma isPrompt_iff:
  "isPromptBasedGeneration prefix \<longleftrightarrow>
     (\<exists>rest. trim prefix = ''// '' @ rest \<and> (\<exists>c \<in> set rest. \<not> isWhiteSpace c))"
proof
  assume p: "isPromptBasedGeneration prefix"
  let ?t = "trim prefix"
  from p have sw: "startsWith ?t ''// ''" and len: "length ?t > 3"
    by (simp_all add: isPromptBasedGeneration_def Let_def)
  from sw obtain rest where rest: "?t = ''// '' @ rest" by (auto simp: startsWith_iff)
  with len have ne: "rest \<noteq> []" by auto
  from rest have "?t \<noteq> []" by simp
  then have "\<not> isWhiteSpace (last ?t)" by (rule trim_last)
  moreover have "last ?t = last rest" using rest ne by simp
  ultimately have "\<not> isWhiteSpace (last rest)" by simp
  moreover have "last rest \<in> set rest" using ne by simp
  ultimately show "\<exists>rest. ?t = ''// '' @ rest \<and> (\<exists>c \<in> set rest. \<not> isWhiteSpace c)"
    using rest by blast
next
  assume "\<exists>rest. trim prefix = ''// '' @ rest \<and> (\<exists>c \<in> set rest. \<not> isWhiteSpace c)"
  then obtain rest c where rest: "trim prefix = ''// '' @ rest" and "c \<in> set rest" by blast
  then have "rest \<noteq> []" by auto
  with rest show "isPromptBasedGeneration prefix"
    by (simp add: isPromptBasedGeneration_def startsWith_def)
qed


section \<open>What the matchers leave\<close>

lemma part_refl: "part s s"
  unfolding part_def by (metis append_Nil append_Nil2)

lemma part_trans: "part a b \<Longrightarrow> part b c \<Longrightarrow> part a c"
  unfolding part_def by (metis append.assoc)

lemma part_prefix: "part p (p @ r)"
  unfolding part_def by (metis append_Nil)

lemma part_suffix: "part r (p @ r)"
  unfolding part_def by (metis append_Nil2)

lemma part_map: "part a b \<Longrightarrow> part (map f a) (map f b)"
  unfolding part_def by (metis map_append)

lemma includesStr_part: "includesStr s p = part p s"
  by (simp add: includesStr_iff part_def)

lemma part_trim: "part (trim s) s"
  unfolding part_def using trim_decomp by blast

lemma sfx_Some: "sfx Some"
  by (simp add: sfx_def)

lemma sfxD: "sfx k \<Longrightarrow> k s = Some r \<Longrightarrow> \<exists>p. s = p @ r"
  by (simp add: sfx_def)

lemma chr_SomeD: "chr P k s = Some r \<Longrightarrow> \<exists>c t. s = c # t \<and> P c \<and> k t = Some r"
  by (cases s) (auto split: if_splits)

lemma lit_SomeD: "lit xs k s = Some r \<Longrightarrow> \<exists>t. s = xs @ t \<and> k t = Some r"
proof (induction xs arbitrary: s)
  case Nil
  then show ?case by simp
next
  case (Cons x xs)
  from Cons.prems obtain t where t: "s = x # t" "lit xs k t = Some r"
    by (auto dest: chr_SomeD)
  from Cons.IH [OF t(2)] t(1) show ?case by auto
qed

lemma lazy_SomeD: "lazy P k s = Some r \<Longrightarrow> \<exists>a t. s = a @ t \<and> k t = Some r"
proof (induction s)
  case Nil
  then show ?case by auto
next
  case (Cons c cs)
  show ?case
  proof (cases "k (c # cs)")
    case (Some r')
    with Cons.prems have "k (c # cs) = Some r" by simp
    then have "c # cs = [] @ (c # cs) \<and> k (c # cs) = Some r" by simp
    then show ?thesis by blast
  next
    case None
    with Cons.prems have "lazy P k cs = Some r" by (simp split: if_splits)
    with Cons.IH obtain a t where "cs = a @ t" "k t = Some r" by blast
    then have "c # cs = (c # a) @ t \<and> k t = Some r" by simp
    then show ?thesis by blast
  qed
qed

lemma opt_SomeD: "opt P k s = Some r \<Longrightarrow> k s = Some r \<or> (\<exists>c t. s = c # t \<and> P c \<and> k t = Some r)"
  by (cases s) (auto split: if_splits option.splits)

lemma sfx_chr: "sfx k \<Longrightarrow> sfx (chr P k)"
  unfolding sfx_def
proof (intro allI impI)
  fix s r assume k: "\<forall>s r. k s = Some r \<longrightarrow> (\<exists>p. s = p @ r)" and "chr P k s = Some r"
  then obtain c t where "s = c # t" "k t = Some r" by (auto dest: chr_SomeD)
  moreover with k obtain p where "t = p @ r" by blast
  ultimately have "s = (c # p) @ r" by simp
  then show "\<exists>p. s = p @ r" ..
qed

lemma sfx_lit: "sfx k \<Longrightarrow> sfx (lit xs k)"
  unfolding sfx_def
proof (intro allI impI)
  fix s r assume k: "\<forall>s r. k s = Some r \<longrightarrow> (\<exists>p. s = p @ r)" and "lit xs k s = Some r"
  then obtain t where "s = xs @ t" "k t = Some r" by (auto dest: lit_SomeD)
  moreover with k obtain p where "t = p @ r" by blast
  ultimately have "s = (xs @ p) @ r" by simp
  then show "\<exists>p. s = p @ r" ..
qed

lemma sfx_lazy: "sfx k \<Longrightarrow> sfx (lazy P k)"
  unfolding sfx_def
proof (intro allI impI)
  fix s r assume k: "\<forall>s r. k s = Some r \<longrightarrow> (\<exists>p. s = p @ r)" and "lazy P k s = Some r"
  then obtain a t where "s = a @ t" "k t = Some r" by (auto dest: lazy_SomeD)
  moreover with k obtain p where "t = p @ r" by blast
  ultimately have "s = (a @ p) @ r" by simp
  then show "\<exists>p. s = p @ r" ..
qed

lemma sfx_opt: "sfx k \<Longrightarrow> sfx (opt P k)"
  unfolding sfx_def
proof (intro allI impI)
  fix s r assume k: "\<forall>s r. k s = Some r \<longrightarrow> (\<exists>p. s = p @ r)" and "opt P k s = Some r"
  then consider "k s = Some r" | c t where "s = c # t" "k t = Some r"
    by (auto dest: opt_SomeD)
  then show "\<exists>p. s = p @ r"
  proof cases
    case 1
    with k show ?thesis by blast
  next
    case 2
    moreover with k obtain p where "t = p @ r" by blast
    ultimately have "s = (c # p) @ r" by simp
    then show ?thesis ..
  qed
qed

lemma sfx_leadIn: "sfx (leadIn first rest closing Some)"
  unfolding leadIn_def by (intro sfx_lazy sfx_chr sfx_lit sfx_Some)

lemma sfx_openFence: "sfx (openFenceRe Some)"
  unfolding openFenceRe_def by (intro sfx_lazy sfx_chr sfx_lit sfx_opt sfx_Some)

lemma part_replaceAnchored: "sfx (re Some) \<Longrightarrow> part (replaceAnchored re s) s"
proof (cases "re Some s")
  case None
  then show ?thesis by (simp add: replaceAnchored_def part_refl)
next
  case (Some r)
  assume "sfx (re Some)"
  with Some obtain p where "s = p @ r" by (auto dest: sfxD)
  with Some show ?thesis by (simp add: replaceAnchored_def part_suffix)
qed

lemma part_foldl_replace:
  "(\<forall>re \<in> set res. sfx (re Some)) \<Longrightarrow>
   part (foldl (\<lambda>c pattern. replaceAnchored pattern c) s res) s"
proof (induction res arbitrary: s)
  case Nil
  then show ?case by (simp add: part_refl)
next
  case (Cons re res)
  have "part (foldl (\<lambda>c pattern. replaceAnchored pattern c) (replaceAnchored re s) res)
          (replaceAnchored re s)"
    using Cons.prems by (intro Cons.IH) simp
  moreover have "part (replaceAnchored re s) s"
    using Cons.prems by (intro part_replaceAnchored) simp
  ultimately show ?case by (auto intro: part_trans)
qed

lemma sfx_explanationPatterns: "\<forall>re \<in> set explanationPatterns. sfx (re Some)"
  by (simp add: explanationPatterns_def sfx_leadIn)

lemma part_replaceFirst:
  assumes "\<And>t r. re Some t = Some r \<Longrightarrow> r = []"
  shows "part (replaceFirst re s) s"
proof (cases "search (re Some) s")
  case None
  then show ?thesis by (simp add: replaceFirst_def part_refl)
next
  case (Some pr)
  obtain p r where pr: "pr = (p, r)" by (cases pr)
  with Some obtain t where t: "s = p @ t" "re Some t = Some r" by (auto dest: search_SomeD)
  then have "r = []" using assms by blast
  with Some pr t show ?thesis by (simp add: replaceFirst_def part_prefix)
qed

lemma closeFence_SomeD:
  assumes "closeFenceRe Some t = Some r"
  shows "r = [] \<and> (t = ''```'' \<or> t = CHR 0x0A # ''```'')"
proof -
  have k: "r' = [] \<and> u = ''```''" if "lit ''```'' (eoi Some) u = Some r'" for u r'
  proof -
    from lit_SomeD [OF that] obtain v where "u = ''```'' @ v" "eoi Some v = Some r'"
      by blast
    then show ?thesis by (auto simp: eoi_def split: if_splits)
  qed
  from assms have "opt (\<lambda>c. c = CHR 0x0A) (lit ''```'' (eoi Some)) t = Some r"
    by (simp add: closeFenceRe_def)
  from opt_SomeD [OF this] consider "lit ''```'' (eoi Some) t = Some r"
    | c u where "t = c # u" "c = CHR 0x0A" "lit ''```'' (eoi Some) u = Some r"
    by blast
  then show ?thesis
  proof cases
    case 1
    with k show ?thesis by blast
  next
    case 2
    with k [of u r] show ?thesis by simp
  qed
qed

lemma part_closeFence: "part (replaceFirst closeFenceRe s) s"
  by (rule part_replaceFirst) (auto dest: closeFence_SomeD)

lemma part_think: "part (replaceFirst thinkRe s) s"
  by (rule part_replaceFirst) (auto simp: thinkRe_eq split: if_splits)

lemma splitLines_ne: "splitLines s \<noteq> []"
  by (induction s) (auto split: list.splits)

lemma splitLines_no_nl: "l \<in> set (splitLines s) \<Longrightarrow> CHR 0x0A \<notin> set l"
proof (induction s arbitrary: l)
  case Nil
  then show ?case by simp
next
  case (Cons c cs)
  show ?case
  proof (cases "c = CHR 0x0A")
    case True
    with Cons show ?thesis by auto
  next
    case False
    obtain l' ls where sp: "splitLines cs = l' # ls"
      using splitLines_ne [of cs] by (cases "splitLines cs") auto
    with False Cons.prems have "l = c # l' \<or> l \<in> set ls" by auto
    then show ?thesis
    proof
      assume "l = c # l'"
      moreover have "CHR 0x0A \<notin> set l'" using Cons.IH [of l'] sp by simp
      ultimately show ?thesis using False by auto
    next
      assume "l \<in> set ls"
      with sp show ?thesis using Cons.IH [of l] by simp
    qed
  qed
qed

lemma splitLines_part: "l \<in> set (splitLines s) \<Longrightarrow> part l s"
proof (induction s arbitrary: l)
  case Nil
  then show ?case by (simp add: part_refl)
next
  case (Cons c cs)
  obtain l' ls where sp: "splitLines cs = l' # ls"
    using splitLines_ne [of cs] by (cases "splitLines cs") auto
  have tl: "part m (c # cs)" if "part m cs" for m
  proof -
    from that obtain a b where "cs = a @ m @ b" by (auto simp: part_def)
    then have "c # cs = (c # a) @ m @ b" by simp
    then show ?thesis unfolding part_def by blast
  qed
  show ?case
  proof (cases "c = CHR 0x0A")
    case True
    with Cons.prems have "l = [] \<or> l \<in> set (splitLines cs)" by auto
    then show ?thesis
    proof
      assume "l = []"
      then show ?thesis unfolding part_def by auto
    next
      assume "l \<in> set (splitLines cs)"
      then show ?thesis by (intro tl Cons.IH)
    qed
  next
    case False
    with sp Cons.prems have "l = c # l' \<or> l \<in> set ls" by auto
    then show ?thesis
    proof
      assume l: "l = c # l'"
      have "part l' cs" using sp by (intro Cons.IH) simp
      moreover have "\<exists>b. cs = l' @ b" using sp
      proof (induction cs arbitrary: l' ls)
        case Nil
        then show ?case by simp
      next
        case (Cons d ds)
        obtain m ms where m: "splitLines ds = m # ms"
          using splitLines_ne [of ds] by (cases "splitLines ds") auto
        show ?case
        proof (cases "d = CHR 0x0A")
          case True
          with Cons.prems show ?thesis by simp
        next
          case False
          with Cons.prems m have "l' = d # m" by simp
          moreover from Cons.IH [OF m] obtain b where "ds = m @ b" by blast
          ultimately show ?thesis by simp
        qed
      qed
      then obtain b where "cs = l' @ b" by blast
      with l have "c # cs = [] @ l @ b" by simp
      then show ?thesis unfolding part_def by blast
    next
      assume "l \<in> set ls"
      with sp have "l \<in> set (splitLines cs)" by simp
      then show ?thesis by (intro tl Cons.IH)
    qed
  qed
qed

lemma splitLines_single: "CHR 0x0A \<notin> set s \<Longrightarrow> splitLines s = [s]"
  by (induction s) auto

lemma collect_result:
  "collectCodeLines ls [] = [] \<or>
   (\<exists>l \<in> set ls. collectCodeLines ls [] = [l] \<and> looksLikeCode (trim l))"
  by (induction ls) (auto simp: Let_def)

section \<open>Lead-in patterns and keywords\<close>

lemma looksLikeCode_backtick: "\<not> looksLikeCode (CHR 0x60 # cs)"
  by (simp add: looksLikeCode_def codePatterns_def test_def plus1_def isIdentStart_def
      isLetter_def isDigit_def)

lemma looksLikeCode_ne: "looksLikeCode l \<Longrightarrow> l \<noteq> []"
  by (auto simp: looksLikeCode_def)

lemma looksLikeCode_keyword:
  "looksLikeCode l \<Longrightarrow> kw \<in> set explanationKeywords \<Longrightarrow> \<not> includesStr (toLowerCase l) kw"
  by (auto simp: looksLikeCode_def list_ex_iff split: if_splits)

lemma leadIn_part:
  assumes "leadIn first rest closing Some s = Some r"
  shows "\<exists>c \<in> set first. part (c # rest) s"
proof -
  from assms have "lazy dotChar (chr (\<lambda>c. c \<in> set first)
      (lit rest (lazy dotChar (lit closing Some)))) s = Some r"
    by (simp add: leadIn_def)
  from lazy_SomeD [OF this] obtain a t where
    at: "s = a @ t" "chr (\<lambda>c. c \<in> set first) (lit rest (lazy dotChar (lit closing Some))) t = Some r"
    by blast
  from chr_SomeD [OF at(2)] obtain c u where
    cu: "t = c # u" "c \<in> set first" "lit rest (lazy dotChar (lit closing Some)) u = Some r"
    by blast
  from lit_SomeD [OF cu(3)] obtain v where v: "u = rest @ v" by blast
  from at(1) cu(1) v have "s = a @ (c # rest) @ v" by simp
  then have "part (c # rest) s" unfolding part_def by blast
  with cu(2) show ?thesis by blast
qed

lemma leadIn_keyword:
  assumes m: "leadIn first rest closing Some s = Some r"
    and kw: "list_all (\<lambda>c. includesStr (toLowerCase (c # rest)) kw) first"
  shows "includesStr (toLowerCase s) kw"
proof -
  from leadIn_part [OF m] obtain c where c: "c \<in> set first" "part (c # rest) s" by blast
  from c(2) have "part (toLowerCase (c # rest)) (toLowerCase s)"
    unfolding toLowerCase_def by (rule part_map)
  moreover from kw c(1) have "part kw (toLowerCase (c # rest))"
    by (simp add: list_all_iff includesStr_part)
  ultimately have "part kw (toLowerCase s)" by (blast intro: part_trans)
  then show ?thesis by (simp add: includesStr_part)
qed

lemma part_evalI: "includesStr s p \<Longrightarrow> part p s"
  by (simp add: includesStr_part)

lemma explanation_keyword:
  assumes "re \<in> set explanationPatterns" "re Some s = Some r"
  shows "\<exists>kw \<in> set explanationKeywords. includesStr (toLowerCase s) kw"
proof -
  have k: "\<And>kw. kw \<in> set explanationKeywords \<Longrightarrow> includesStr (toLowerCase s) kw \<Longrightarrow> ?thesis"
    by blast
  from assms(1) consider
      "re = leadIn ''Oo'' ''kay'' ''.''"
    | "re = leadIn ''Ll'' ''et's see'' ''.''"
    | "re = leadIn ''Tt'' ''he user'' ''.''"
    | "re = leadIn ''Tt'' ''he code'' ''.''"
    | "re = leadIn ''Tt'' ''he function'' ''.''"
    | "re = leadIn ''Ii'' '' need to'' ''.''"
    | "re = leadIn ''Ww'' ''e need'' ''.''"
    | "re = leadIn ''Cc'' ''omplete'' ''.''"
    | "re = leadIn ''w'' ''ants me to'' ''.''"
    unfolding explanationPatterns_def by auto
  then show ?thesis
  proof cases
    case 1
    have "list_all (\<lambda>c. includesStr (toLowerCase (c # ''kay'')) ''okay'') ''Oo''"
      by code_simp
    from leadIn_keyword [OF assms(2) [unfolded 1] this] show ?thesis
      by (rule k [rotated]) (simp add: explanationKeywords_def)
  next
    case 2
    have "list_all (\<lambda>c. includesStr (toLowerCase (c # ''et's see'')) ''let's see'') ''Ll''"
      by code_simp
    from leadIn_keyword [OF assms(2) [unfolded 2] this] show ?thesis
      by (rule k [rotated]) (simp add: explanationKeywords_def)
  next
    case 3
    have "list_all (\<lambda>c. includesStr (toLowerCase (c # ''he user'')) ''the user'') ''Tt''"
      by code_simp
    from leadIn_keyword [OF assms(2) [unfolded 3] this] show ?thesis
      by (rule k [rotated]) (simp add: explanationKeywords_def)
  next
    case 4
    have "list_all (\<lambda>c. includesStr (toLowerCase (c # ''he code'')) ''the code'') ''Tt''"
      by code_simp
    from leadIn_keyword [OF assms(2) [unfolded 4] this] show ?thesis
      by (rule k [rotated]) (simp add: explanationKeywords_def)
  next
    case 5
    have "list_all (\<lambda>c. includesStr (toLowerCase (c # ''he function'')) ''the function'') ''Tt''"
      by code_simp
    from leadIn_keyword [OF assms(2) [unfolded 5] this] show ?thesis
      by (rule k [rotated]) (simp add: explanationKeywords_def)
  next
    case 6
    have "list_all (\<lambda>c. includesStr (toLowerCase (c # '' need to'')) ''i need'') ''Ii''"
      by code_simp
    from leadIn_keyword [OF assms(2) [unfolded 6] this] show ?thesis
      by (rule k [rotated]) (simp add: explanationKeywords_def)
  next
    case 7
    have "list_all (\<lambda>c. includesStr (toLowerCase (c # ''e need'')) ''we need'') ''Ww''"
      by code_simp
    from leadIn_keyword [OF assms(2) [unfolded 7] this] show ?thesis
      by (rule k [rotated]) (simp add: explanationKeywords_def)
  next
    case 8
    have "list_all (\<lambda>c. includesStr (toLowerCase (c # ''omplete'')) ''complete'') ''Cc''"
      by code_simp
    from leadIn_keyword [OF assms(2) [unfolded 8] this] show ?thesis
      by (rule k [rotated]) (simp add: explanationKeywords_def)
  next
    case 9
    have "list_all (\<lambda>c. includesStr (toLowerCase (c # ''ants me to'')) ''wants me to'') ''w''"
      by code_simp
    from leadIn_keyword [OF assms(2) [unfolded 9] this] show ?thesis
      by (rule k [rotated]) (simp add: explanationKeywords_def)
  qed
qed

section \<open>Cleaning a cleaned line\<close>

lemma search_think_None_iff:
  "search (thinkRe Some) s = None \<longleftrightarrow> \<not> includesStr (toLowerCase s) ''<think>''"
proof
  assume n: "search (thinkRe Some) s = None"
  show "\<not> includesStr (toLowerCase s) ''<think>''"
  proof
    assume "includesStr (toLowerCase s) ''<think>''"
    then obtain a b where ab: "toLowerCase s = a @ ''<think>'' @ b"
      by (auto simp: includesStr_iff)
    let ?n = "length a"
    have la: "length a + 7 \<le> length s"
    proof -
      have "length (toLowerCase s) = length a + 7 + length b" by (simp add: ab)
      then show ?thesis by (simp add: toLowerCase_def)
    qed
    have "toLowerCase (take 7 (drop ?n s)) = take 7 (drop ?n (toLowerCase s))"
      by (simp add: toLowerCase_def take_map drop_map)
    also have "\<dots> = ''<think>''" by (simp add: ab)
    finally have "isThinkAt (drop ?n s)" using la by (simp add: isThinkAt_def)
    then have "thinkRe Some (drop ?n s) \<noteq> None" by (simp add: thinkRe_eq)
    moreover have "?n \<le> length s" using la by simp
    ultimately show False using n by (simp add: search_None_iff)
  qed
next
  assume "\<not> includesStr (toLowerCase s) ''<think>''"
  then show "search (thinkRe Some) s = None" by (rule no_think_search_None)
qed

lemma no_think_part:
  assumes "part l s" "search (thinkRe Some) s = None"
  shows "search (thinkRe Some) l = None"
proof -
  from assms(1) have "part (toLowerCase l) (toLowerCase s)"
    unfolding toLowerCase_def by (rule part_map)
  moreover from assms(2) have "\<not> part ''<think>'' (toLowerCase s)"
    by (simp add: search_think_None_iff includesStr_part)
  ultimately have "\<not> part ''<think>'' (toLowerCase l)" by (blast intro: part_trans)
  then show ?thesis by (simp add: search_think_None_iff includesStr_part)
qed

lemma no_think_after: "search (thinkRe Some) (replaceFirst thinkRe x) = None"
proof (cases "search (thinkRe Some) x")
  case None
  then show ?thesis by (simp add: replaceFirst_def)
next
  case (Some pr)
  obtain p r where pr: "pr = (p, r)" by (cases pr)
  with Some have s: "search (thinkRe Some) x = Some (p, r)" by simp
  then have r: "r = []" by (rule search_think_rest)
  from search_SomeD [OF s] obtain t where t: "x = p @ t" "thinkRe Some t = Some r" by blast
  from t(2) have ta: "isThinkAt t" by (simp add: thinkRe_eq split: if_splits)
  let ?m = "take 7 t"
  have m: "toLowerCase ?m = ''<think>''" using ta by (simp add: isThinkAt_def)
  have x: "x = p @ ?m @ drop 7 t" using t(1) by simp
  have "search (thinkRe Some) p = None"
  proof (cases "search (thinkRe Some) p")
    case None
    then show ?thesis .
  next
    case (Some qr)
    obtain q r' where qr: "qr = (q, r')" by (cases qr)
    with Some have sp: "search (thinkRe Some) p = Some (q, r')" by simp
    have "search (thinkRe Some) (p @ ?m @ drop 7 t) = Some (q, [])"
      unfolding search_think_append [OF m] sp by simp
    with s x have qp: "q = p" by simp
    from search_SomeD [OF sp] obtain u where u: "p = q @ u" "thinkRe Some u = Some r'" by blast
    from u(1) qp have "u = []" by simp
    with u(2) have False by (simp add: thinkRe_eq isThinkAt_def)
    then show ?thesis ..
  qed
  moreover have "replaceFirst thinkRe x = p" using s r by (simp add: replaceFirst_def)
  ultimately show ?thesis by simp
qed

lemma endsWith_iff: "endsWith s p \<longleftrightarrow> (\<exists>a. s = a @ p)"
proof
  assume "endsWith s p"
  then have "s = take (length s - length p) s @ p"
    by (metis endsWith_def append_take_drop_id)
  then show "\<exists>a. s = a @ p" ..
next
  assume "\<exists>a. s = a @ p"
  then show "endsWith s p" by (auto simp: endsWith_def)
qed

lemma closeFence_search_None:
  assumes "\<not> endsWith s ''```''"
  shows "search (closeFenceRe Some) s = None"
proof -
  have "closeFenceRe Some (drop n s) = None" for n
  proof (rule ccontr)
    assume "closeFenceRe Some (drop n s) \<noteq> None"
    then obtain r where "closeFenceRe Some (drop n s) = Some r" by auto
    from closeFence_SomeD [OF this]
    consider "drop n s = ''```''" | "drop n s = CHR 0x0A # ''```''" by blast
    then have "\<exists>a. s = a @ ''```''"
    proof cases
      case 1
      have "s = take n s @ drop n s" by simp
      with 1 have "s = take n s @ ''```''" by simp
      then show ?thesis by (rule exI [of _ "take n s"])
    next
      case 2
      have "s = take n s @ drop n s" by simp
      with 2 have "s = (take n s @ [CHR 0x0A]) @ ''```''" by simp
      then show ?thesis by (rule exI [of _ "take n s @ [CHR 0x0A]"])
    qed
    with assms show False by (simp add: endsWith_iff)
  qed
  then show ?thesis by (simp add: search_None_iff)
qed

lemma foldl_replace_id:
  "(\<forall>re \<in> set res. re Some s = None) \<Longrightarrow>
   foldl (\<lambda>c pattern. replaceAnchored pattern c) s res = s"
  by (induction res) (simp_all add: replaceAnchored_def)

lemma openFence_None: "s \<noteq> [] \<Longrightarrow> hd s \<noteq> CHR 0x60 \<Longrightarrow> openFenceRe Some s = None"
  by (cases s) (simp_all add: openFenceRe_def)

lemma cleanCompletion_Nil: "cleanCompletion [] = []"
  by code_simp

lemma clean_shape:
  "cleanCompletion x = [] \<or>
   (\<exists>line. cleanCompletion x = trim line \<and> looksLikeCode (trim line) \<and>
      CHR 0x0A \<notin> set line \<and> part line (replaceFirst thinkRe x))"
proof (cases "trim (replaceFirst thinkRe x) = []")
  case True
  then show ?thesis by (simp add: cleanCompletion_def)
next
  case False
  let ?c1 = "replaceFirst thinkRe x"
  let ?c2 = "replaceAnchored openFenceRe ?c1"
  let ?c3 = "replaceFirst closeFenceRe ?c2"
  let ?c4 = "foldl (\<lambda>c pattern. replaceAnchored pattern c) ?c3 explanationPatterns"
  let ?cl = "collectCodeLines (splitLines ?c4) []"
  have cc: "cleanCompletion x = trim (joinLines ?cl)"
    using False by (simp add: cleanCompletion_def)
  have p41: "part ?c4 ?c1"
  proof -
    have "part ?c4 ?c3" using sfx_explanationPatterns by (rule part_foldl_replace)
    moreover have "part ?c3 ?c2" by (rule part_closeFence)
    moreover have "part ?c2 ?c1" using sfx_openFence by (rule part_replaceAnchored)
    ultimately show ?thesis by (blast intro: part_trans)
  qed
  from collect_result [of "splitLines ?c4"] consider "?cl = []"
    | l where "l \<in> set (splitLines ?c4)" "?cl = [l]" "looksLikeCode (trim l)" by blast
  then show ?thesis
  proof cases
    case 1
    then show ?thesis by (simp add: cc trim_Nil)
  next
    case 2
    from 2(1) have "CHR 0x0A \<notin> set l" by (rule splitLines_no_nl)
    moreover from 2(1) have "part l ?c4" by (rule splitLines_part)
    with p41 have "part l ?c1" by (blast intro: part_trans)
    moreover have "cleanCompletion x = trim l" using 2(2) by (simp add: cc)
    ultimately show ?thesis using 2(3) by blast
  qed
qed

lemma clean_fixed:
  assumes code: "looksLikeCode l" and tr: "trim l = l" and nl: "CHR 0x0A \<notin> set l"
    and nt: "search (thinkRe Some) l = None" and nf: "\<not> endsWith l ''```''"
  shows "cleanCompletion l = l"
proof -
  from code have ne: "l \<noteq> []" by (rule looksLikeCode_ne)
  have c1: "replaceFirst thinkRe l = l" using nt by (simp add: replaceFirst_def)
  have "hd l \<noteq> CHR 0x60"
  proof
    assume "hd l = CHR 0x60"
    with ne have "l = CHR 0x60 # tl l" by (cases l) auto
    with code looksLikeCode_backtick [of "tl l"] show False by simp
  qed
  with ne have "openFenceRe Some l = None" by (rule openFence_None)
  then have c2: "replaceAnchored openFenceRe l = l" by (simp add: replaceAnchored_def)
  have c3: "replaceFirst closeFenceRe l = l"
    using closeFence_search_None [OF nf] by (simp add: replaceFirst_def)
  have "\<forall>re \<in> set explanationPatterns. re Some l = None"
  proof
    fix re assume re: "re \<in> set explanationPatterns"
    show "re Some l = None"
    proof (rule ccontr)
      assume "re Some l \<noteq> None"
      then obtain r where "re Some l = Some r" by auto
      from explanation_keyword [OF re this] obtain kw where
        "kw \<in> set explanationKeywords" "includesStr (toLowerCase l) kw" by blast
      with looksLikeCode_keyword [OF code] show False by blast
    qed
  qed
  then have c4: "foldl (\<lambda>c pattern. replaceAnchored pattern c) l explanationPatterns = l"
    by (rule foldl_replace_id)
  have sp: "splitLines l = [l]" using nl by (rule splitLines_single)
  have cl: "collectCodeLines [l] [] = [l]" using code tr ne by (simp add: Let_def)
  show ?thesis
    unfolding cleanCompletion_def Let_def c1 c2 c3 c4 sp cl
    using tr ne by simp
qed

section \<open>The invariant of the coordinator\<close>

lemmas coordInv_defs = coordInv_def invPending_def invOnce_def invAwaiting_def invIds_def invTimers_def
  invContext_def invLive_def ids_def

lemma map_of_snoc:
  "map_of (rc @ [(p, v)]) q =
     (case map_of rc q of Some x \<Rightarrow> Some x | None \<Rightarrow> if q = p then Some v else None)"
  by (induction rc) (auto simp del: map_of_append split: option.splits)

lemma settled_None_iff: "settled w p = None \<longleftrightarrow> p \<notin> fst ` set (resolveCalls w)"
  by (simp add: settled_def map_of_eq_None_iff)

lemma settled_callResolve:
  "settled (callResolve p v w) q =
     (case settled w q of Some x \<Rightarrow> Some x | None \<Rightarrow> if q = p then Some v else None)"
  by (simp add: settled_def callResolve_def map_of_snoc del: map_of_append)

lemma inv_initial: "coordInv (initial c)"
  by (simp add: coordInv_defs initial_def settled_def)

lemma inv_cong:
  assumes "pendingResolve w' = pendingResolve w" "lastDebounceInput w' = lastDebounceInput w"
    "debounceTimer w' = debounceTimer w" "timers w' = timers w" "awaiting w' = awaiting w"
    "resolveCalls w' = resolveCalls w" "inlinePromises w' = inlinePromises w"
    "clientCalls w' = clientCalls w" "nextId w' = nextId w"
  shows "coordInv w' = coordInv w"
  unfolding coordInv_defs settled_def assms ..

lemma inv_frame:
  "coordInv (w\<lparr>cancelled := x\<rparr>) = coordInv w"
  "coordInv (w\<lparr>clock := y\<rparr>) = coordInv w"
  "coordInv (w\<lparr>configured := z\<rparr>) = coordInv w"
  "coordInv (w\<lparr>promptCalls := u\<rparr>) = coordInv w"
  "coordInv (w\<lparr>outOfRange := v\<rparr>) = coordInv w"
  by (rule inv_cong; simp)+

lemma invD:
  assumes "coordInv w"
  shows "invPending w" "invOnce w" "invAwaiting w" "invIds w" "invTimers w" "invContext w"
    "invLive w"
  using assms by (simp_all add: coordInv_def)

lemma inv_fresh_null:
  assumes "coordInv w"
  shows "coordInv (callResolve (nextId w) None (w\<lparr>nextId := Suc (nextId w)\<rparr>))"
proof -
  let ?i = "nextId w"
  let ?w = "callResolve ?i None (w\<lparr>nextId := Suc ?i\<rparr>)"
  note d = invD [OF assms]
  have fresh: "?i \<notin> ids w" using d(4) by (auto simp: invIds_def)
  have f: "pendingResolve ?w = pendingResolve w" "lastDebounceInput ?w = lastDebounceInput w"
    "inlinePromises ?w = inlinePromises w" "awaiting ?w = awaiting w" "timers ?w = timers w"
    "debounceTimer ?w = debounceTimer w" "clientCalls ?w = clientCalls w"
    "resolveCalls ?w = resolveCalls w @ [(?i, None)]" "nextId ?w = Suc ?i"
    by (simp_all add: callResolve_def)
  have st: "settled ?w q = (if q = ?i then Some None else settled w q)" for q
  proof -
    have "settled w ?i = None" using fresh by (simp add: settled_None_iff ids_def)
    then show ?thesis
      unfolding settled_def f by (simp add: map_of_snoc del: map_of_append split: option.splits)
  qed
  have "invPending ?w"
    using d(1) fresh unfolding invPending_def f st ids_def by auto
  moreover have "invOnce ?w"
    using d(2) fresh unfolding invOnce_def f ids_def by auto
  moreover have "invAwaiting ?w"
    using d(3) fresh unfolding invAwaiting_def f st ids_def by auto
  moreover have "invIds ?w"
    using d(4) unfolding invIds_def ids_def f by (auto simp: less_Suc_eq)
  moreover have "invTimers ?w"
    using d(5) unfolding invTimers_def f by simp
  moreover have "invContext ?w"
    using d(6) unfolding invContext_def f by auto
  moreover have "invLive ?w"
    using d(7) fresh unfolding invLive_def f st ids_def by auto
  ultimately show ?thesis by (simp add: coordInv_def)
qed

lemma inv_clearTimeout: "coordInv w \<Longrightarrow> coordInv (clearTimeout h w)"
proof -
  assume a: "coordInv w"
  note d = invD [OF a]
  let ?w = "clearTimeout h w"
  have f: "pendingResolve ?w = pendingResolve w" "lastDebounceInput ?w = lastDebounceInput w"
    "inlinePromises ?w = inlinePromises w" "awaiting ?w = awaiting w"
    "timers ?w = filter (\<lambda>t. fst t \<noteq> h) (timers w)"
    "debounceTimer ?w = debounceTimer w" "clientCalls ?w = clientCalls w"
    "resolveCalls ?w = resolveCalls w" "nextId ?w = nextId w"
    by (simp_all add: clearTimeout_def)
  have st: "settled ?w = settled w" by (simp add: settled_def fun_eq_iff f)
  have "invPending ?w" using d(1) unfolding invPending_def f st .
  moreover have "invOnce ?w" using d(2) unfolding invOnce_def f .
  moreover have "invAwaiting ?w" using d(3) unfolding invAwaiting_def f st .
  moreover have "invIds ?w" using d(4) unfolding invIds_def ids_def f by auto
  moreover have "invTimers ?w"
  proof -
    have "length (filter (\<lambda>t. fst t \<noteq> h) (timers w)) \<le> 1"
      using d(5) le_trans [OF length_filter_le] unfolding invTimers_def by blast
    then show ?thesis using d(5) unfolding invTimers_def f by auto
  qed
  moreover have "invContext ?w" using d(6) unfolding invContext_def f .
  moreover have "invLive ?w" using d(7) unfolding invLive_def f st .
  ultimately show ?thesis by (simp add: coordInv_def)
qed

lemma set_remove_nth: "set (take k xs @ drop (Suc k) xs) \<subseteq> set xs"
  by (auto dest: in_set_takeD in_set_dropD)

lemma distinct_remove_nth:
  assumes "distinct (map f xs)"
  shows "distinct (map f (take k xs @ drop (Suc k) xs))"
proof (cases "k < length xs")
  case True
  then have "xs = take k xs @ xs ! k # drop (Suc k) xs" by (rule id_take_nth_drop)
  then have "map f xs = map f (take k xs) @ f (xs ! k) # map f (drop (Suc k) xs)"
    by (metis map_append list.simps(9))
  with assms have "distinct (map f (take k xs) @ f (xs ! k) # map f (drop (Suc k) xs))"
    by simp
  then show ?thesis by auto
next
  case False
  then show ?thesis using assms by simp
qed

lemma removed_not_in_rest:
  assumes "distinct (map f xs)" "k < length xs"
  shows "f (xs ! k) \<notin> f ` set (take k xs @ drop (Suc k) xs)"
proof -
  have "xs = take k xs @ xs ! k # drop (Suc k) xs"
    using assms(2) by (rule id_take_nth_drop)
  then have "map f xs = map f (take k xs) @ f (xs ! k) # map f (drop (Suc k) xs)"
    by (metis map_append list.simps(9))
  with assms(1) have "distinct (map f (take k xs) @ f (xs ! k) # map f (drop (Suc k) xs))"
    by simp
  then show ?thesis by auto
qed

lemma inv_drop_awaiting:
  "coordInv w \<Longrightarrow> coordInv (w\<lparr>awaiting := take k (awaiting w) @ drop (Suc k) (awaiting w)\<rparr>)"
proof -
  assume a: "coordInv w"
  note d = invD [OF a]
  let ?aw = "take k (awaiting w) @ drop (Suc k) (awaiting w)"
  let ?w = "w\<lparr>awaiting := ?aw\<rparr>"
  have sub: "set ?aw \<subseteq> set (awaiting w)" by (rule set_remove_nth)
  have f: "pendingResolve ?w = pendingResolve w" "lastDebounceInput ?w = lastDebounceInput w"
    "inlinePromises ?w = inlinePromises w" "awaiting ?w = ?aw"
    "timers ?w = timers w"
    "debounceTimer ?w = debounceTimer w" "clientCalls ?w = clientCalls w"
    "resolveCalls ?w = resolveCalls w" "nextId ?w = nextId w"
    by simp_all
  have st: "settled ?w = settled w" by (simp add: settled_def fun_eq_iff)
  have "invPending ?w" using d(1) unfolding invPending_def f st .
  moreover have "invOnce ?w" using d(2) unfolding invOnce_def f .
  moreover have "invAwaiting ?w"
  proof -
    have "distinct (map fst ?aw)"
      using d(3) unfolding invAwaiting_def by (intro distinct_remove_nth) simp
    then show ?thesis using d(3) sub unfolding invAwaiting_def f st by blast
  qed
  moreover have "invIds ?w" using d(4) sub unfolding invIds_def ids_def f by blast
  moreover have "invTimers ?w" using d(5) sub unfolding invTimers_def f by blast
  moreover have "invContext ?w" using d(6) unfolding invContext_def f .
  moreover have "invLive ?w" using d(7) unfolding invLive_def f st .
  ultimately show ?thesis by (simp add: coordInv_def)
qed

lemma inv_resume_match:
  assumes a: "coordInv w" and p: "pendingResolve w = Some p" and t: "timers w = []"
    and na: "p \<notin> fst ` set (awaiting w)"
    and v: "\<forall>q text. v = Some (q, text) \<longrightarrow> q = p"
  shows "coordInv ((callResolve p v w)\<lparr>pendingResolve := None, lastDebounceInput := None\<rparr>)"
proof -
  note d = invD [OF a]
  let ?w = "(callResolve p v w)\<lparr>pendingResolve := None, lastDebounceInput := None\<rparr>"
  have f: "pendingResolve ?w = None" "lastDebounceInput ?w = None"
    "inlinePromises ?w = inlinePromises w" "awaiting ?w = awaiting w"
    "timers ?w = []"
    "debounceTimer ?w = debounceTimer w" "clientCalls ?w = clientCalls w"
    "resolveCalls ?w = resolveCalls w @ [(p, v)]" "nextId ?w = nextId w"
    using t by (simp_all add: callResolve_def)
  have un: "settled w p = None" and pin: "p \<in> set (inlinePromises w)"
    using d(1) p unfolding invPending_def by auto
  have st: "settled ?w q = (if q = p then Some v else settled w q)" for q
    using un unfolding settled_def f
    by (simp add: map_of_snoc del: map_of_append split: option.splits)
  have pr: "p \<notin> fst ` set (resolveCalls w)" using un by (simp add: settled_None_iff)
  have "invPending ?w" unfolding invPending_def f by simp
  moreover have "invOnce ?w" using d(2) pr unfolding invOnce_def f by simp
  moreover have "invAwaiting ?w"
    using d(3) na p unfolding invAwaiting_def f st by force
  moreover have "invIds ?w"
  proof -
    have "p \<in> ids w" using pin by (simp add: ids_def)
    then show ?thesis using d(4) t unfolding invIds_def ids_def f by auto
  qed
  moreover have "invTimers ?w" unfolding invTimers_def f by simp
  moreover have "invContext ?w" using d(6) v unfolding invContext_def f by auto
  moreover have "invLive ?w" using d(7) p unfolding invLive_def f st by auto
  ultimately show ?thesis by (simp add: coordInv_def)
qed

lemma inv_dispatch:
  assumes a: "coordInv w" and p: "pendingResolve w = Some p"
    and l: "lastDebounceInput w = Some (rq, tok)" and t: "timers w = []"
    and na: "p \<notin> fst ` set (awaiting w)"
  shows "coordInv (w\<lparr>clientCalls := clientCalls w @ [rq], awaiting := awaiting w @ [(p, rq)]\<rparr>)"
proof -
  note d = invD [OF a]
  let ?w = "w\<lparr>clientCalls := clientCalls w @ [rq], awaiting := awaiting w @ [(p, rq)]\<rparr>"
  have f: "pendingResolve ?w = Some p" "lastDebounceInput ?w = lastDebounceInput w"
    "inlinePromises ?w = inlinePromises w" "awaiting ?w = awaiting w @ [(p, rq)]"
    "timers ?w = []"
    "debounceTimer ?w = debounceTimer w" "clientCalls ?w = clientCalls w @ [rq]"
    "resolveCalls ?w = resolveCalls w" "nextId ?w = nextId w"
    using t p by simp_all
  have st: "settled ?w = settled w" by (simp add: settled_def fun_eq_iff)
  have rq: "rq = p" and pin: "p \<in> set (inlinePromises w)"
    using d(1) p l unfolding invPending_def by auto
  have "invPending ?w" using d(1) p unfolding invPending_def f st by simp
  moreover have "invOnce ?w" using d(2) unfolding invOnce_def f .
  moreover have "invAwaiting ?w"
    using d(3) na p rq unfolding invAwaiting_def f st by auto
  moreover have "invIds ?w"
  proof -
    have "p \<in> ids w" using pin by (simp add: ids_def)
    then show ?thesis using d(4) t rq unfolding invIds_def ids_def f by auto
  qed
  moreover have "invTimers ?w" unfolding invTimers_def f by simp
  moreover have "invContext ?w" using d(6) unfolding invContext_def f .
  moreover have "invLive ?w" using d(7) p unfolding invLive_def f st by simp
  ultimately show ?thesis by (simp add: coordInv_def)
qed

lemma timers_cleared:
  assumes "invTimers w"
  shows "(case debounceTimer w of Some h \<Rightarrow> filter (\<lambda>t. fst t \<noteq> h) (timers w)
          | None \<Rightarrow> timers w) = []"
proof (cases "debounceTimer w")
  case None
  have "timers w = []"
  proof (rule ccontr)
    assume "timers w \<noteq> []"
    then obtain t where "t \<in> set (timers w)" by (cases "timers w") auto
    with assms have "debounceTimer w = Some (fst t)" unfolding invTimers_def by blast
    with None show False by simp
  qed
  with None show ?thesis by simp
next
  case (Some h)
  have "filter (\<lambda>t. fst t \<noteq> h) (timers w) = []"
    using assms Some unfolding invTimers_def by (auto simp: filter_empty_conv)
  with Some show ?thesis by simp
qed

text \<open>The inline path of provideInlineCompletionItems, field by field.\<close>

lemma provide_inline_fields:
  fixes token :: nat
  assumes "configured w" "\<not> isPromptBasedGeneration prefix"
  defines "w' \<equiv> provideInlineCompletionItems prefix token w"
  shows "pendingResolve w' = Some (nextId w)"
    and "lastDebounceInput w' = Some (nextId w, token)"
    and "debounceTimer w' = Some (nextId w)"
    and "timers w' = (case debounceTimer w of Some h \<Rightarrow> filter (\<lambda>t. fst t \<noteq> h) (timers w)
          | None \<Rightarrow> timers w) @ [(nextId w, clock w + debounceDelay)]"
    and "resolveCalls w' = resolveCalls w @
          (case pendingResolve w of Some p \<Rightarrow> [(p, None)] | None \<Rightarrow> [])"
    and "inlinePromises w' = inlinePromises w @ [nextId w]"
    and "awaiting w' = awaiting w" and "clientCalls w' = clientCalls w"
    and "nextId w' = Suc (nextId w)" and "clock w' = clock w"
    and "cancelled w' = cancelled w" and "configured w' = configured w"
    and "promptCalls w' = promptCalls w"
  using assms(1,2) unfolding w'_def provideInlineCompletionItems_def Let_def
  by (simp_all add: callResolve_def clearTimeout_def setTimeout_def split: option.splits)

lemma inv_provide_inline:
  assumes a: "coordInv w" and c: "configured w" and np: "\<not> isPromptBasedGeneration prefix"
  shows "coordInv (provideInlineCompletionItems prefix token w)"
proof -
  note d = invD [OF a]
  let ?i = "nextId w"
  let ?w = "provideInlineCompletionItems prefix token w"
  let ?rc = "case pendingResolve w of Some p \<Rightarrow> [(p, None)] | None \<Rightarrow> []"
  note g = provide_inline_fields [OF c np, of token]
  have tm: "timers ?w = [(?i, clock w + debounceDelay)]"
    unfolding g(4) timers_cleared [OF d(5)] by simp
  note f = g(1-3) tm g(5-9)
  have fresh: "?i \<notin> ids w" using d(4) by (auto simp: invIds_def)
  have st: "settled ?w q =
      (if pendingResolve w = Some q then Some None else settled w q)" for q
  proof (cases "pendingResolve w")
    case None
    then show ?thesis unfolding settled_def f by simp
  next
    case (Some p)
    then have "settled w p = None" using d(1) unfolding invPending_def by auto
    then show ?thesis using Some unfolding settled_def f
      by (simp add: map_of_snoc del: map_of_append split: option.splits)
  qed
  have pi: "pendingResolve w \<noteq> Some ?i"
  proof
    assume "pendingResolve w = Some ?i"
    then have "?i \<in> set (inlinePromises w)" using d(1) unfolding invPending_def by auto
    with fresh show False by (simp add: ids_def)
  qed
  have si: "settled w ?i = None" using fresh by (simp add: settled_None_iff ids_def)
  have "invPending ?w"
    unfolding invPending_def f st using pi si by simp
  moreover have "invOnce ?w"
  proof (cases "pendingResolve w")
    case None
    then show ?thesis using d(2) unfolding invOnce_def f by simp
  next
    case (Some p)
    then have "settled w p = None" using d(1) unfolding invPending_def by auto
    then have "p \<notin> fst ` set (resolveCalls w)" by (simp add: settled_None_iff)
    then show ?thesis using d(2) Some unfolding invOnce_def f by simp
  qed
  moreover have "invAwaiting ?w"
  proof -
    have "fst a \<noteq> ?i" if "a \<in> set (awaiting w)" for a
    proof -
      have "fst a \<in> fst ` set (awaiting w)" using that by (rule imageI)
      then have "fst a \<in> ids w" by (simp add: ids_def)
      with fresh show ?thesis by auto
    qed
    then show ?thesis using d(3) unfolding invAwaiting_def f st by auto
  qed
  moreover have "invIds ?w"
  proof (cases "pendingResolve w")
    case None
    then show ?thesis using d(4) unfolding invIds_def ids_def f
      by (auto simp: less_Suc_eq)
  next
    case (Some p)
    then have "p \<in> set (inlinePromises w)" using d(1) unfolding invPending_def by auto
    then have "p < nextId w" using d(4) unfolding invIds_def ids_def by auto
    then show ?thesis using d(4) Some unfolding invIds_def ids_def f
      by (auto simp: less_Suc_eq)
  qed
  moreover have "invTimers ?w"
    using fresh unfolding invTimers_def f ids_def by simp
  moreover have "invContext ?w"
    using d(6) unfolding invContext_def f by (auto split: option.splits)
  moreover have "invLive ?w"
    using d(7) fresh pi si unfolding invLive_def f st ids_def by auto
  ultimately show ?thesis by (simp add: coordInv_def)
qed

lemma inv_handlePrompt:
  assumes "coordInv w"
  shows "coordInv (handlePromptGeneration (nextId w) prefix token (w\<lparr>nextId := Suc (nextId w)\<rparr>))"
proof -
  have n: "coordInv (w\<lparr>nextId := Suc (nextId w), promptCalls := u\<rparr>)" for u
  proof -
    note d = invD [OF assms]
    let ?w = "w\<lparr>nextId := Suc (nextId w), promptCalls := u\<rparr>"
    have st: "settled ?w = settled w" by (simp add: settled_def fun_eq_iff)
    have "invPending ?w" using d(1) unfolding invPending_def st by simp
    moreover have "invOnce ?w" using d(2) unfolding invOnce_def by simp
    moreover have "invAwaiting ?w" using d(3) unfolding invAwaiting_def st by simp
    moreover have "invIds ?w" using d(4) unfolding invIds_def ids_def
      by (auto simp: less_Suc_eq)
    moreover have "invTimers ?w" using d(5) unfolding invTimers_def by simp
    moreover have "invContext ?w" using d(6) unfolding invContext_def by simp
    moreover have "invLive ?w" using d(7) unfolding invLive_def st by simp
    ultimately show ?thesis by (simp add: coordInv_def)
  qed
  show ?thesis
    unfolding handlePromptGeneration_def
    using inv_fresh_null [OF assms] n by (auto split: option.splits)
qed

lemma inv_provide: "coordInv w \<Longrightarrow> coordInv (provideInlineCompletionItems prefix token w)"
proof -
  assume a: "coordInv w"
  consider "\<not> configured w" | "configured w" "isPromptBasedGeneration prefix"
    | "configured w" "\<not> isPromptBasedGeneration prefix" by blast
  then show ?thesis
  proof cases
    case 1
    then show ?thesis using inv_fresh_null [OF a]
      by (simp add: provideInlineCompletionItems_def Let_def)
  next
    case 2
    then show ?thesis using inv_handlePrompt [OF a]
      by (simp add: provideInlineCompletionItems_def Let_def)
  next
    case 3
    with a show ?thesis by (intro inv_provide_inline)
  qed
qed

lemma armed_timer:
  assumes a: "coordInv w" and e: "list_ex (\<lambda>t. fst t = h \<and> snd t \<le> clock w) (timers w)"
  shows "\<exists>due. timers w = [(h, due)] \<and> due \<le> clock w"
    and "pendingResolve w = Some h"
    and "h \<notin> fst ` set (awaiting w)" and "h \<notin> set (clientCalls w)"
proof -
  note d = invD [OF a]
  from e obtain t where t: "t \<in> set (timers w)" "fst t = h" "snd t \<le> clock w"
    by (auto simp: list_ex_iff)
  have "length (timers w) \<le> 1" using d(5) unfolding invTimers_def by simp
  with t(1) have "timers w = [t]"
    by (cases "timers w") (auto simp: length_Suc_conv)
  with t(2,3) have "timers w = [(h, snd t)] \<and> snd t \<le> clock w" by (cases t) auto
  then show "\<exists>due. timers w = [(h, due)] \<and> due \<le> clock w" by blast
  from t(1,2) d(5) show "pendingResolve w = Some h"
    and "h \<notin> fst ` set (awaiting w)" and "h \<notin> set (clientCalls w)"
    unfolding invTimers_def by auto
qed

text \<open>The two ways a timer callback runs when its timer fires in a reachable world.\<close>

lemma fire_fields:
  assumes a: "coordInv w" and e: "list_ex (\<lambda>t. fst t = h \<and> snd t \<le> clock w) (timers w)"
  shows "\<exists>token. lastDebounceInput w = Some (h, token) \<and>
     timerCallback (clearTimeout h w) =
       (if token \<in> set (cancelled w) \<or> h \<in> set (outOfRange w)
        then (callResolve h None (clearTimeout h w))
               \<lparr>pendingResolve := None, lastDebounceInput := None\<rparr>
        else (clearTimeout h w)\<lparr>clientCalls := clientCalls w @ [h],
               awaiting := awaiting w @ [(h, h)]\<rparr>)"
proof -
  note d = invD [OF a]
  note t = armed_timer [OF a e]
  from t(2) d(1) obtain token where l: "lastDebounceInput w = Some (h, token)"
    unfolding invPending_def by auto
  have "timerCallback (clearTimeout h w) =
       (if token \<in> set (cancelled w) \<or> h \<in> set (outOfRange w)
        then (callResolve h None (clearTimeout h w))
               \<lparr>pendingResolve := None, lastDebounceInput := None\<rparr>
        else (clearTimeout h w)\<lparr>clientCalls := clientCalls w @ [h],
               awaiting := awaiting w @ [(h, h)]\<rparr>)"
    using t(2) l by (simp add: timerCallback_def resumeCallback_def clearTimeout_def)
  with l show ?thesis by blast
qed

lemma inv_fire:
  assumes a: "coordInv w" and e: "list_ex (\<lambda>t. fst t = h \<and> snd t \<le> clock w) (timers w)"
  shows "coordInv (timerCallback (clearTimeout h w))"
proof -
  note t = armed_timer [OF a e]
  from fire_fields [OF a e] obtain token where
    l: "lastDebounceInput w = Some (h, token)" and
    c: "timerCallback (clearTimeout h w) =
       (if token \<in> set (cancelled w) \<or> h \<in> set (outOfRange w)
        then (callResolve h None (clearTimeout h w))
               \<lparr>pendingResolve := None, lastDebounceInput := None\<rparr>
        else (clearTimeout h w)\<lparr>clientCalls := clientCalls w @ [h],
               awaiting := awaiting w @ [(h, h)]\<rparr>)" by blast
  let ?w = "clearTimeout h w"
  have i: "coordInv ?w" using a by (rule inv_clearTimeout)
  have p: "pendingResolve ?w = Some h" using t(2) by (simp add: clearTimeout_def)
  have tm: "timers ?w = []" using t(1) by (auto simp: clearTimeout_def)
  have na: "h \<notin> fst ` set (awaiting ?w)" using t(3) by (simp add: clearTimeout_def)
  have l': "lastDebounceInput ?w = Some (h, token)" using l by (simp add: clearTimeout_def)
  show ?thesis
  proof (cases "token \<in> set (cancelled w) \<or> h \<in> set (outOfRange w)")
    case True
    have "coordInv ((callResolve h None ?w)\<lparr>pendingResolve := None, lastDebounceInput := None\<rparr>)"
      using i p tm na by (rule inv_resume_match) simp
    with True c show ?thesis by simp
  next
    case False
    have "coordInv (?w\<lparr>clientCalls := clientCalls ?w @ [h], awaiting := awaiting ?w @ [(h, h)]\<rparr>)"
      using i p l' tm na by (rule inv_dispatch)
    with False c show ?thesis by (simp add: clearTimeout_def)
  qed
qed

lemma inv_complete:
  assumes a: "coordInv w" and k: "k < length (awaiting w)"
  shows "coordInv (resumeCallback (fst (awaiting w ! k)) (getCompletionWithDebounce (snd (awaiting w ! k)) outcome)
            (w\<lparr>awaiting := take k (awaiting w) @ drop (Suc k) (awaiting w)\<rparr>))"
proof -
  note d = invD [OF a]
  let ?cr = "fst (awaiting w ! k)"
  let ?rq = "snd (awaiting w ! k)"
  let ?w = "w\<lparr>awaiting := take k (awaiting w) @ drop (Suc k) (awaiting w)\<rparr>"
  let ?v = "getCompletionWithDebounce ?rq outcome"
  have i: "coordInv ?w" using a by (rule inv_drop_awaiting)
  have mem: "awaiting w ! k \<in> set (awaiting w)" using k by simp
  show ?thesis
  proof (cases "pendingResolve w = Some ?cr")
    case False
    then show ?thesis using i by (simp add: resumeCallback_def)
  next
    case True
    have p: "pendingResolve ?w = Some ?cr" using True by simp
    have tm: "timers ?w = []"
    proof (rule ccontr)
      assume "timers ?w \<noteq> []"
      then obtain t where t: "t \<in> set (timers w)" by (cases "timers w") auto
      with d(5) have "pendingResolve w = Some (fst t)" "fst t \<notin> fst ` set (awaiting w)"
        unfolding invTimers_def by auto
      with True have "?cr \<notin> fst ` set (awaiting w)" by simp
      with mem show False by auto
    qed
    have na: "?cr \<notin> fst ` set (awaiting ?w)"
      using removed_not_in_rest [of fst "awaiting w" k] d(3) k
      unfolding invAwaiting_def by simp
    have rq: "?rq = ?cr" using d(3) mem unfolding invAwaiting_def by blast
    have v: "\<forall>q text. ?v = Some (q, text) \<longrightarrow> q = ?cr"
      unfolding rq by (auto simp: getCompletionWithDebounce_def split: option.splits if_splits)
    have "coordInv ((callResolve ?cr ?v ?w)\<lparr>pendingResolve := None, lastDebounceInput := None\<rparr>)"
      using i p tm na v by (rule inv_resume_match)
    with True show ?thesis by (simp add: resumeCallback_def)
  qed
qed

lemma inv_step: "coordInv w \<Longrightarrow> step e w = Some w' \<Longrightarrow> coordInv w'"
proof (cases e)
  case (Provide prefix token)
  assume "coordInv w" "step e w = Some w'"
  with Provide show ?thesis by (auto intro: inv_provide)
next
  case (Fire h)
  assume "coordInv w" "step e w = Some w'"
  with Fire show ?thesis by (auto intro: inv_fire split: if_splits)
next
  case (Complete k outcome)
  assume "coordInv w" "step e w = Some w'"
  with Complete show ?thesis using inv_complete [of w k outcome]
    by (auto simp: Let_def split: if_splits)
next
  case (Cancel token)
  assume "coordInv w" "step e w = Some w'"
  with Cancel show ?thesis by (auto simp: inv_frame)
next
  case (Elapse d)
  assume "coordInv w" "step e w = Some w'"
  with Elapse show ?thesis by (auto simp: inv_frame)
next
  case (UpdateConfiguration c)
  assume "coordInv w" "step e w = Some w'"
  with UpdateConfiguration show ?thesis by (auto simp: inv_frame)
next
  case (Edit request lineExists)
  assume "coordInv w" "step e w = Some w'"
  with Edit show ?thesis by (auto simp: inv_frame split: if_splits)
qed

lemma inv_run: "coordInv w \<Longrightarrow> run tr w = Some w' \<Longrightarrow> coordInv w'"
proof (induction tr arbitrary: w)
  case Nil
  then show ?case by simp
next
  case (Cons e tr)
  from Cons.prems(2) obtain w1 where s: "step e w = Some w1" and r: "run tr w1 = Some w'"
    by (auto split: option.splits)
  from Cons.prems(1) s have "coordInv w1" by (rule inv_step)
  then show ?case using r by (rule Cons.IH)
qed

lemma inv_reachable: "run tr (initial c) = Some w \<Longrightarrow> coordInv w"
  using inv_initial by (rule inv_run)

lemma star_total: "(\<And>s. k s \<noteq> None) \<Longrightarrow> star P k s \<noteq> None"
  by (induction s) (auto split: option.splits)

lemma isPrompt_userPrompt:
  assumes "isPromptBasedGeneration prefix"
  shows "\<exists>u. userPromptOf prefix = Some u"
proof -
  from assms obtain rest where rest: "trim prefix = ''// '' @ rest"
    by (auto simp: isPrompt_iff)
  obtain a b where dec: "prefix = a @ trim prefix @ b"
    and a: "\<forall>c \<in> set a. isWhiteSpace c"
    using trim_decomp by blast
  let ?s = "rest @ b"
  let ?k = "\<lambda>g r. Some (take (length g - length r) g)"
  have tot: "capture (plus1 dotChar) (CHR '' '' # ?s) \<noteq> None"
  proof -
    have "star dotChar (?k (CHR '' '' # ?s)) ?s \<noteq> None" by (rule star_total) simp
    then show ?thesis
      by (simp add: capture_def plus1_def dotChar_def isLineTerminator_def)
  qed
  have "star isWhiteSpace (capture (plus1 dotChar)) (CHR '' '' # ?s) \<noteq> None"
    using tot by (simp add: isWhiteSpace_def split: option.splits)
  then obtain g where "star isWhiteSpace (capture (plus1 dotChar)) (CHR '' '' # ?s) = Some g"
    by auto
  then have "promptRe (''//'' @ CHR '' '' # ?s) = Some g"
    unfolding promptRe_def lit_append .
  moreover have "trim prefix @ b = ''//'' @ CHR '' '' # ?s" using rest by simp
  ultimately have pr: "promptRe (trim prefix @ b) = Some g" by simp
  have "\<forall>c \<in> set a. \<forall>s. promptRe (c # s) = None"
  proof (intro ballI allI)
    fix c s assume "c \<in> set a"
    with a have "isWhiteSpace c" by simp
    then have "c \<noteq> CHR ''/''" by (auto simp: isWhiteSpace_def)
    then show "promptRe (c # s) = None" by (rule promptRe_not_slash)
  qed
  then have "search promptRe (a @ trim prefix @ b) = Some (a, g)"
    using pr by (rule search_skip)
  with dec have "search promptRe prefix = Some (a, g)" by simp
  then show ?thesis by (simp add: userPromptOf_def promptMatch_def)
qed

section \<open>Runs of the coordinator\<close>

lemma provide_frame:
  "nextId (provideInlineCompletionItems prefix token w) = Suc (nextId w)"
  "clientCalls (provideInlineCompletionItems prefix token w) = clientCalls w"
  "fst ` set (timers (provideInlineCompletionItems prefix token w))
     \<subseteq> insert (nextId w) (fst ` set (timers w))"
  by (auto simp: provideInlineCompletionItems_def Let_def handlePromptGeneration_def
      callResolve_def clearTimeout_def setTimeout_def split: option.splits)

lemma not_dispatched_step:
  assumes a: "coordInv w" and i: "i < nextId w" "i \<notin> fst ` set (timers w)"
    "i \<notin> set (clientCalls w)" and s: "step e w = Some w1"
  shows "i < nextId w1 \<and> i \<notin> fst ` set (timers w1) \<and> i \<notin> set (clientCalls w1)"
proof (cases e)
  case (Provide prefix token)
  with s have w1: "w1 = provideInlineCompletionItems prefix token w" by simp
  show ?thesis unfolding w1 using i provide_frame [of prefix token w] by auto
next
  case (Fire h)
  with s have en: "list_ex (\<lambda>t. fst t = h \<and> snd t \<le> clock w) (timers w)"
    and w1: "w1 = timerCallback (clearTimeout h w)" by (auto split: if_splits)
  from armed_timer(1) [OF a en] have hi: "h \<noteq> i" using i(2) by auto
  from fire_fields [OF a en] obtain token where
    "w1 = (if token \<in> set (cancelled w) \<or> h \<in> set (outOfRange w)
        then (callResolve h None (clearTimeout h w))
               \<lparr>pendingResolve := None, lastDebounceInput := None\<rparr>
        else (clearTimeout h w)\<lparr>clientCalls := clientCalls w @ [h],
               awaiting := awaiting w @ [(h, h)]\<rparr>)"
    unfolding w1 by blast
  then show ?thesis using i hi
    by (auto simp: callResolve_def clearTimeout_def split: if_splits)
next
  case (Complete k outcome)
  with s show ?thesis using i
    by (auto simp: Let_def resumeCallback_def callResolve_def split: if_splits)
next
  case (Cancel token)
  with s show ?thesis using i by auto
next
  case (Elapse d)
  with s show ?thesis using i by auto
next
  case (UpdateConfiguration c)
  with s show ?thesis using i by auto
next
  case (Edit request lineExists)
  with s show ?thesis using i by (auto split: if_splits)
qed

lemma not_dispatched_later:
  "coordInv w \<Longrightarrow> i < nextId w \<Longrightarrow> i \<notin> fst ` set (timers w) \<Longrightarrow> i \<notin> set (clientCalls w) \<Longrightarrow>
   run tr w = Some w' \<Longrightarrow> i \<notin> set (clientCalls w')"
proof (induction tr arbitrary: w)
  case Nil
  then show ?case by simp
next
  case (Cons e tr)
  from Cons.prems(5) obtain w1 where s: "step e w = Some w1" and r: "run tr w1 = Some w'"
    by (auto split: option.splits)
  from Cons.prems(1) s have "coordInv w1" by (rule inv_step)
  moreover from not_dispatched_step [OF Cons.prems(1-4) s]
  have "i < nextId w1" "i \<notin> fst ` set (timers w1)" "i \<notin> set (clientCalls w1)" by simp_all
  ultimately show ?case using r by (intro Cons.IH)
qed

text \<open>The world after an inline call in a reachable world.\<close>

lemma after_inline_call:
  fixes token :: nat
  assumes a: "coordInv w" and c: "configured w" and np: "\<not> isPromptBasedGeneration prefix"
  defines "w' \<equiv> provideInlineCompletionItems prefix token w"
  shows "coordInv w'" and "configured w'" and "pendingResolve w' = Some (nextId w)"
    and "lastDebounceInput w' = Some (nextId w, token)"
    and "timers w' = [(nextId w, clock w + debounceDelay)]"
    and "settled w' (nextId w) = None"
    and "nextId w' = Suc (nextId w)" and "clock w' = clock w"
    and "clientCalls w' = clientCalls w" and "awaiting w' = awaiting w"
    and "cancelled w' = cancelled w"
    and "\<And>p. pendingResolve w = Some p \<Longrightarrow> settled w' p = Some None"
    and "\<And>q x. settled w q = Some x \<Longrightarrow> settled w' q = Some x"
proof -
  note g = provide_inline_fields [OF c np, of token, folded w'_def]
  show i: "coordInv w'" unfolding w'_def using a c np by (rule inv_provide_inline)
  show "configured w'" using g(12) c by simp
  show p: "pendingResolve w' = Some (nextId w)" by (rule g(1))
  show "lastDebounceInput w' = Some (nextId w, token)" by (rule g(2))
  show "timers w' = [(nextId w, clock w + debounceDelay)]"
    unfolding g(4) timers_cleared [OF invD(5) [OF a]] by simp
  show "settled w' (nextId w) = None"
    using invD(1) [OF i] p unfolding invPending_def by blast
  show "nextId w' = Suc (nextId w)" by (rule g(9))
  show "clock w' = clock w" by (rule g(10))
  show "clientCalls w' = clientCalls w" by (rule g(8))
  show "awaiting w' = awaiting w" by (rule g(7))
  show "cancelled w' = cancelled w" by (rule g(11))
  show "settled w' p = Some None" if "pendingResolve w = Some p" for p
  proof -
    from that have "settled w p = None" using invD(1) [OF a] unfolding invPending_def by blast
    then show ?thesis using that unfolding settled_def g(5)
      by (simp add: map_of_snoc del: map_of_append)
  qed
  show "settled w' q = Some x" if "settled w q = Some x" for q x
    using that unfolding settled_def g(5)
    by (cases "pendingResolve w") (simp_all add: map_of_snoc del: map_of_append)
qed



section \<open>The claims on the cleaning pipeline\<close>

text \<open>
  C4. When the raw text holds the marker \<open><think>\<close> in any letter case, both cleaners
  give what they give for the text before the marker: for every text \<open>pre\<close>, marker
  \<open>m\<close> and text \<open>rest\<close>, the results for \<open>pre @ m @ rest\<close> are the results for \<open>pre\<close>,
  whatever \<open>rest\<close> holds. When \<open>pre\<close> holds no marker, so that \<open>m\<close> is the first one, the
  text that enters the later steps is \<open>pre\<close> itself.
\<close>

theorem think_marker_discards_rest:
  assumes "toLowerCase m = ''<think>''"
  shows "cleanCompletion (pre @ m @ rest) = cleanCompletion pre \<and>
         cleanGeneratedCode (pre @ m @ rest) = cleanGeneratedCode pre \<and>
         (\<not> includesStr (toLowerCase pre) ''<think>'' \<longrightarrow>
            replaceFirst thinkRe (pre @ m @ rest) = pre)"
proof -
  have r: "replaceFirst thinkRe (pre @ m @ rest) = replaceFirst thinkRe pre"
    using assms by (rule replaceFirst_think_append)
  have "cleanCompletion (pre @ m @ rest) = cleanCompletion pre"
    unfolding cleanCompletion_def r ..
  moreover have "cleanGeneratedCode (pre @ m @ rest) = cleanGeneratedCode pre"
    unfolding cleanGeneratedCode_def r ..
  moreover have "\<not> includesStr (toLowerCase pre) ''<think>'' \<longrightarrow>
      replaceFirst thinkRe (pre @ m @ rest) = pre"
    using assms by (blast intro: replaceFirst_think_first)
  ultimately show ?thesis by blast
qed

text \<open>C4 at a marker in capitals followed by text that looks like code.\<close>

theorem think_marker_discards_rest_witness:
  "toLowerCase ''<THINK>'' = ''<think>'' \<and>
   \<not> includesStr (toLowerCase ''x = 1; '') ''<think>'' \<and>
   cleanCompletion (''x = 1; '' @ ''<THINK>'' @ ''y = 2;'') = cleanCompletion ''x = 1; '' \<and>
   cleanGeneratedCode (''x = 1; '' @ ''<THINK>'' @ ''y = 2;'') = cleanGeneratedCode ''x = 1; '' \<and>
   replaceFirst thinkRe (''x = 1; '' @ ''<THINK>'' @ ''y = 2;'') = ''x = 1; ''"
proof -
  have h: "toLowerCase ''<THINK>'' = ''<think>''" by code_simp
  have n: "\<not> includesStr (toLowerCase ''x = 1; '') ''<think>''" by code_simp
  from think_marker_discards_rest [OF h, of "''x = 1; ''" "''y = 2;''"] h n
  show ?thesis by blast
qed




text \<open>
  C8, as the code has it. For every input whose cleaned result does not end with the
  fence \<open>```\<close>, cleaning the result again gives the result.
\<close>

theorem cleanCompletion_idempotent_without_fence:
  assumes "\<not> endsWith (cleanCompletion x) ''```''"
  shows "cleanCompletion (cleanCompletion x) = cleanCompletion x"
proof -
  from clean_shape [of x] consider "cleanCompletion x = []"
    | line where "cleanCompletion x = trim line" "looksLikeCode (trim line)"
        "CHR 0x0A \<notin> set line" "part line (replaceFirst thinkRe x)" by blast
  then show ?thesis
  proof cases
    case 1
    then show ?thesis by (simp add: cleanCompletion_Nil)
  next
    case 2
    let ?l = "trim line"
    have "part ?l line" by (rule part_trim)
    with 2(4) have p: "part ?l (replaceFirst thinkRe x)" by (blast intro: part_trans)
    have "cleanCompletion ?l = ?l"
    proof (rule clean_fixed)
      show "looksLikeCode ?l" by (rule 2(2))
      show "trim ?l = ?l" by (rule trim_trim)
      show "CHR 0x0A \<notin> set ?l" using 2(3) set_trim [of line] by blast
      show "search (thinkRe Some) ?l = None" using p no_think_after by (rule no_think_part)
      show "\<not> endsWith ?l ''```''" using assms 2(1) by simp
    qed
    with 2(1) show ?thesis by simp
  qed
qed

text \<open>C8 as amended, at a fenced reply.\<close>

theorem cleanCompletion_idempotent_without_fence_witness:
  "\<not> endsWith (cleanCompletion (''```js'' @ [CHR 0x0A] @ ''return a + b;'' @ [CHR 0x0A] @ ''```''))
      ''```'' \<and>
   cleanCompletion (cleanCompletion
      (''```js'' @ [CHR 0x0A] @ ''return a + b;'' @ [CHR 0x0A] @ ''```'')) =
   cleanCompletion (''```js'' @ [CHR 0x0A] @ ''return a + b;'' @ [CHR 0x0A] @ ''```'')"
proof -
  have h: "\<not> endsWith (cleanCompletion
      (''```js'' @ [CHR 0x0A] @ ''return a + b;'' @ [CHR 0x0A] @ ''```'')) ''```''"
    by code_simp
  from h cleanCompletion_idempotent_without_fence [OF h] show ?thesis by blast
qed

text \<open>
  C8 as the specification states it fails: the first code line \<open>a = 1; ```\<close> of a reply
  with a second line is kept with its fence, and the second cleaning removes the fence.
\<close>

theorem cleanCompletion_not_idempotent_counterexample:
  "cleanCompletion (cleanCompletion (''a = 1; ```'' @ [CHR 0x0A] @ ''more'')) \<noteq>
   cleanCompletion (''a = 1; ```'' @ [CHR 0x0A] @ ''more'')"
  by code_simp

text \<open>
  C3, as the code has it. For the reply
  \<open><think>reasoning...</think>\<close>, newline, \<open>```js\<close>, newline, \<open>return a + b;\<close>, newline,
  \<open>```\<close>, \<open>cleanCompletion\<close> returns the empty string: its first step removes the
  marker \<open><think>\<close> and all that follows it, which here is the whole reply, and the
  function returns at its check for an empty text.
\<close>

theorem cleanCompletion_think_reply_empty:
  "cleanCompletion (''<think>reasoning...</think>'' @ [CHR 0x0A] @ ''```js'' @ [CHR 0x0A] @
     ''return a + b;'' @ [CHR 0x0A] @ ''```'') = []"
  by code_simp

text \<open>C3 as the specification states it fails: the result is not \<open>return a + b;\<close>.\<close>

theorem cleanCompletion_think_reply_counterexample:
  "cleanCompletion (''<think>reasoning...</think>'' @ [CHR 0x0A] @ ''```js'' @ [CHR 0x0A] @
     ''return a + b;'' @ [CHR 0x0A] @ ''```'') \<noteq> ''return a + b;''"
  by code_simp

text \<open>
  C9, as the code has it. For the reply \<open>Here's the code: const x = 5;\<close> the inline
  cleaner \<open>cleanCompletion\<close> returns the empty string: none of its lead-in patterns
  matches (the one for \<open>the code\<close> needs a full stop after it), and \<open>looksLikeCode\<close>
  refuses the only line because it holds the keyword \<open>the code\<close>. The cleaner of the
  prompt mode, \<open>cleanGeneratedCode\<close>, has the pattern for \<open>Here's ... :\<close> and returns
  \<open>const x = 5;\<close>.
\<close>

theorem heres_the_code_reply:
  "cleanCompletion ''Here's the code: const x = 5;'' = [] \<and>
   cleanGeneratedCode ''Here's the code: const x = 5;'' = ''const x = 5;''"
  by code_simp

text \<open>C9 as the specification states it fails for the inline cleaner.\<close>

theorem heres_the_code_reply_counterexample:
  "cleanCompletion ''Here's the code: const x = 5;'' \<noteq> ''const x = 5;''"
  by code_simp

text \<open>
  C6 at a failing input: a document of 22 lines whose line 0 is \<open>function foo()\<close> and
  whose lines 1 to 21 are \<open>x\<close>, with the cursor on line 21. The only declaration line is
  21 lines before the cursor line, beyond the bound of 20 lines, yet the scan reaches it
  and the context starts at line 0 and not at line 21 - 15 = 6: the test
  \<open>i < position.line - 20\<close> stands after the examination of line \<open>i\<close>, so the line
  \<open>position.line - 21\<close> is examined before the loop ends.
\<close>

theorem scan_reaches_line_21_before_cursor:
  "scanBack (''function foo()'' # replicate 21 ''x'') 21 21 0 = Some 0 \<and>
   contextStartLine (''function foo()'' # replicate 21 ''x'') 21 = 0"
  by code_simp

section \<open>The claims on the coordinator\<close>

text \<open>
  C10. In a reachable world with the provider configured, a call whose line prefix is
  detected as a prompt leaves \<open>pendingResolve\<close>, \<open>lastDebounceInput\<close> and
  \<open>debounceTimer\<close> as they were, arms no timer, lets no time pass, sends no inline request
  and settles no inline promise; unless its token is cancelled it calls
  \<open>generateCodeFromPrompt\<close> at once with the user prompt.
\<close>

theorem prompt_request_leaves_debounce_state:
  assumes r: "run tr (initial c) = Some w" and conf: "configured w"
    and p: "isPromptBasedGeneration prefix"
  shows "pendingResolve (provideInlineCompletionItems prefix token w) = pendingResolve w \<and>
     lastDebounceInput (provideInlineCompletionItems prefix token w) = lastDebounceInput w \<and>
     debounceTimer (provideInlineCompletionItems prefix token w) = debounceTimer w \<and>
     timers (provideInlineCompletionItems prefix token w) = timers w \<and>
     clock (provideInlineCompletionItems prefix token w) = clock w \<and>
     awaiting (provideInlineCompletionItems prefix token w) = awaiting w \<and>
     clientCalls (provideInlineCompletionItems prefix token w) = clientCalls w \<and>
     inlinePromises (provideInlineCompletionItems prefix token w) = inlinePromises w \<and>
     (\<forall>q. q \<in> set (inlinePromises w) \<longrightarrow>
        settled (provideInlineCompletionItems prefix token w) q = settled w q) \<and>
     (token \<notin> set (cancelled w) \<longrightarrow>
        (\<exists>userPrompt. userPromptOf prefix = Some userPrompt \<and>
           promptCalls (provideInlineCompletionItems prefix token w) =
             promptCalls w @ [(nextId w, userPrompt)] \<and>
           resolveCalls (provideInlineCompletionItems prefix token w) = resolveCalls w))"
proof -
  let ?w = "provideInlineCompletionItems prefix token w"
  from isPrompt_userPrompt [OF p] obtain u where u: "userPromptOf prefix = Some u" by blast
  have e: "?w = (if token \<in> set (cancelled w)
      then callResolve (nextId w) None (w\<lparr>nextId := Suc (nextId w)\<rparr>)
      else w\<lparr>nextId := Suc (nextId w), promptCalls := promptCalls w @ [(nextId w, u)]\<rparr>)"
    using conf p u by (simp add: provideInlineCompletionItems_def Let_def
        handlePromptGeneration_def)
  have i: "coordInv w" using r by (rule inv_reachable)
  have st: "settled ?w q = settled w q" if "q \<in> set (inlinePromises w)" for q
  proof -
    from that have "q \<in> ids w" by (simp add: ids_def)
    with invD(4) [OF i] have "q \<noteq> nextId w" unfolding invIds_def by auto
    then have "settled (callResolve (nextId w) None (w\<lparr>nextId := Suc (nextId w)\<rparr>)) q =
        settled w q"
      unfolding settled_def callResolve_def
      by (simp add: map_of_snoc del: map_of_append split: option.splits)
    moreover have "settled (w\<lparr>nextId := Suc (nextId w),
        promptCalls := promptCalls w @ [(nextId w, u)]\<rparr>) q = settled w q"
      by (simp add: settled_def)
    ultimately show ?thesis unfolding e by simp
  qed
  have f: "pendingResolve ?w = pendingResolve w" "lastDebounceInput ?w = lastDebounceInput w"
    "debounceTimer ?w = debounceTimer w" "timers ?w = timers w" "clock ?w = clock w"
    "awaiting ?w = awaiting w" "clientCalls ?w = clientCalls w"
    "inlinePromises ?w = inlinePromises w"
    unfolding e by (simp_all add: callResolve_def)
  have pc: "token \<notin> set (cancelled w) \<Longrightarrow>
      promptCalls ?w = promptCalls w @ [(nextId w, u)] \<and> resolveCalls ?w = resolveCalls w"
    unfolding e by simp
  show ?thesis using f st pc u by simp
qed

text \<open>C10 at a prompt request that arrives while an inline request is pending.\<close>

theorem prompt_request_leaves_debounce_state_witness:
  "run [Provide ''x'' 7] (initial True) =
     Some \<lparr>configured = True, pendingResolve = Some 0, lastDebounceInput = Some (0, 7),
       debounceTimer = Some 0, clock = 0, timers = [(0, 500)], awaiting = [],
       resolveCalls = [], inlinePromises = [0], clientCalls = [], promptCalls = [],
       cancelled = [], outOfRange = [], nextId = 1\<rparr> \<and>
   isPromptBasedGeneration ''// add two numbers'' \<and>
   provideInlineCompletionItems ''// add two numbers'' 3
     \<lparr>configured = True, pendingResolve = Some 0, lastDebounceInput = Some (0, 7),
       debounceTimer = Some 0, clock = 0, timers = [(0, 500)], awaiting = [],
       resolveCalls = [], inlinePromises = [0], clientCalls = [], promptCalls = [],
       cancelled = [], outOfRange = [], nextId = 1\<rparr> =
     \<lparr>configured = True, pendingResolve = Some 0, lastDebounceInput = Some (0, 7),
       debounceTimer = Some 0, clock = 0, timers = [(0, 500)], awaiting = [],
       resolveCalls = [], inlinePromises = [0], clientCalls = [],
       promptCalls = [(1, ''add two numbers'')], cancelled = [], outOfRange = [], nextId = 2\<rparr>"
proof -
  let ?w = "\<lparr>configured = True, pendingResolve = Some 0, lastDebounceInput = Some (0, 7),
       debounceTimer = Some 0, clock = 0, timers = [(0, 500)], awaiting = [],
       resolveCalls = [], inlinePromises = [0], clientCalls = [], promptCalls = [],
       cancelled = [], outOfRange = [], nextId = 1\<rparr>"
  let ?w' = "provideInlineCompletionItems ''// add two numbers'' 3 ?w"
  have r: "run [Provide ''x'' 7] (initial True) = Some ?w" by code_simp
  have c: "configured ?w" by simp
  have p: "isPromptBasedGeneration ''// add two numbers''" by code_simp
  have u: "userPromptOf ''// add two numbers'' = Some ''add two numbers''" by code_simp
  have n: "nextId ?w' = 2" "configured ?w'" "cancelled ?w' = []" "outOfRange ?w' = []"
    by code_simp+
  from prompt_request_leaves_debounce_state [OF r c p, of 3] u
  have "pendingResolve ?w' = Some 0" "lastDebounceInput ?w' = Some (0, 7)"
    "debounceTimer ?w' = Some 0" "timers ?w' = [(0, 500)]" "clock ?w' = 0"
    "awaiting ?w' = []" "clientCalls ?w' = []" "inlinePromises ?w' = [0]"
    "promptCalls ?w' = [(1, ''add two numbers'')]" "resolveCalls ?w' = []"
    by simp_all
  with n have "?w' = \<lparr>configured = True, pendingResolve = Some 0,
       lastDebounceInput = Some (0, 7),
       debounceTimer = Some 0, clock = 0, timers = [(0, 500)], awaiting = [],
       resolveCalls = [], inlinePromises = [0], clientCalls = [],
       promptCalls = [(1, ''add two numbers'')], cancelled = [], outOfRange = [], nextId = 2\<rparr>"
    by (cases ?w') simp
  with r p show ?thesis by simp
qed

text \<open>
  C1. In every reachable world, when the HTTP call of a waiting timer callback ends, the
  callback resolves its promise with the result only if its \<open>currentResolve\<close> is still
  the provider's \<open>pendingResolve\<close>; the promise was pending until then. Otherwise no
  resolver is called and nothing changes: the request was superseded and its promise
  has settled with \<open>null\<close> before. The request a callback has sent is the one of its
  own promise, every suggestion handed to a resolver was computed for the request of
  that promise, and no resolver is called twice.
\<close>

theorem stale_result_discarded:
  assumes r: "run tr (initial c) = Some w" and k: "k < length (awaiting w)"
  shows "\<exists>w'. step (Complete k outcome) w = Some w' \<and>
      snd (awaiting w ! k) = fst (awaiting w ! k) \<and>
      (if pendingResolve w = Some (fst (awaiting w ! k))
       then settled w (fst (awaiting w ! k)) = None \<and>
            resolveCalls w' = resolveCalls w @
              [(fst (awaiting w ! k), getCompletionWithDebounce (fst (awaiting w ! k)) outcome)] \<and>
            pendingResolve w' = None
       else settled w (fst (awaiting w ! k)) = Some None \<and>
            resolveCalls w' = resolveCalls w \<and> pendingResolve w' = pendingResolve w) \<and>
      distinct (map fst (resolveCalls w')) \<and>
      (\<forall>res \<in> set (resolveCalls w'). \<forall>q text. snd res = Some (q, text) \<longrightarrow> q = fst res)"
proof -
  let ?cr = "fst (awaiting w ! k)"
  let ?rq = "snd (awaiting w ! k)"
  let ?w1 = "w\<lparr>awaiting := take k (awaiting w) @ drop (Suc k) (awaiting w)\<rparr>"
  let ?w' = "resumeCallback ?cr (getCompletionWithDebounce ?rq outcome) ?w1"
  have i: "coordInv w" using r by (rule inv_reachable)
  have s: "step (Complete k outcome) w = Some ?w'" using k by (simp add: Let_def)
  have i': "coordInv ?w'" using i s by (rule inv_step)
  have mem: "awaiting w ! k \<in> set (awaiting w)" using k by simp
  have rq: "?rq = ?cr" using invD(3) [OF i] mem unfolding invAwaiting_def by blast
  have gate: "if pendingResolve w = Some ?cr
       then settled w ?cr = None \<and>
            resolveCalls ?w' = resolveCalls w @ [(?cr, getCompletionWithDebounce ?cr outcome)] \<and>
            pendingResolve ?w' = None
       else settled w ?cr = Some None \<and>
            resolveCalls ?w' = resolveCalls w \<and> pendingResolve ?w' = pendingResolve w"
  proof (cases "pendingResolve w = Some ?cr")
    case True
    then have "settled w ?cr = None" using invD(1) [OF i] unfolding invPending_def by blast
    then show ?thesis using True rq by (simp add: resumeCallback_def callResolve_def)
  next
    case False
    then have "settled w ?cr = Some None"
      using invD(3) [OF i] mem unfolding invAwaiting_def by blast
    then show ?thesis using False by (simp add: resumeCallback_def)
  qed
  have once: "distinct (map fst (resolveCalls ?w'))"
    using invD(2) [OF i'] unfolding invOnce_def .
  have ctx: "\<forall>res \<in> set (resolveCalls ?w'). \<forall>q text. snd res = Some (q, text) \<longrightarrow> q = fst res"
    using invD(6) [OF i'] unfolding invContext_def .
  from s rq gate once ctx show ?thesis by blast
qed

text \<open>
  C1 at a request that was sent and then superseded: its reply is discarded and the
  promise keeps \<open>null\<close>.
\<close>

theorem stale_result_discarded_witness:
  "run [Provide ''x'' 0, Elapse 500, Fire 0, Provide ''y'' 1] (initial True) =
     Some \<lparr>configured = True, pendingResolve = Some 1, lastDebounceInput = Some (1, 1),
       debounceTimer = Some 1, clock = 500, timers = [(1, 1000)], awaiting = [(0, 0)],
       resolveCalls = [(0, None)], inlinePromises = [0, 1], clientCalls = [0],
       promptCalls = [], cancelled = [], outOfRange = [], nextId = 2\<rparr> \<and>
   (\<exists>w'. step (Complete 0 (Reply ''a = 1''))
       \<lparr>configured = True, pendingResolve = Some 1, lastDebounceInput = Some (1, 1),
         debounceTimer = Some 1, clock = 500, timers = [(1, 1000)], awaiting = [(0, 0)],
         resolveCalls = [(0, None)], inlinePromises = [0, 1], clientCalls = [0],
         promptCalls = [], cancelled = [], outOfRange = [], nextId = 2\<rparr> = Some w' \<and>
      resolveCalls w' = [(0, None)] \<and> pendingResolve w' = Some 1 \<and>
      distinct (map fst (resolveCalls w')))"
proof -
  let ?w = "\<lparr>configured = True, pendingResolve = Some 1, lastDebounceInput = Some (1, 1),
       debounceTimer = Some 1, clock = 500, timers = [(1, 1000)], awaiting = [(0, 0)],
       resolveCalls = [(0, None)], inlinePromises = [0, 1], clientCalls = [0],
       promptCalls = [], cancelled = [], outOfRange = [], nextId = 2\<rparr>"
  have r: "run [Provide ''x'' 0, Elapse 500, Fire 0, Provide ''y'' 1] (initial True) = Some ?w"
    by code_simp
  have k: "0 < length (awaiting ?w)" by simp
  from stale_result_discarded [OF r k, of "Reply ''a = 1''"]
  obtain w' where "step (Complete 0 (Reply ''a = 1'')) ?w = Some w'"
    "resolveCalls w' = [(0, None)]" "pendingResolve w' = Some 1"
    "distinct (map fst (resolveCalls w'))"
    by auto
  with r show ?thesis by blast
qed




text \<open>
  C5, as the code has it. In a reachable world with the provider configured, let an
  inline call arrive and its token be cancelled \<open>d\<close> ms later, before the debounce delay
  has passed. At the cancellation nothing happens: the promise stays pending, the timer
  stays armed and cannot fire yet. When the timer fires after the delay, the callback
  finds the token cancelled, resolves the promise with \<open>null\<close> and sends nothing; the
  request is never sent to the client later either.
\<close>

theorem cancellation_checked_at_timer:
  assumes r: "run tr (initial c) = Some w" and conf: "configured w"
    and np: "\<not> isPromptBasedGeneration prefix"
    and d: "d < debounceDelay" and e: "debounceDelay \<le> d + e"
  shows "\<exists>w1 w2. run [Provide prefix token, Elapse d, Cancel token] w = Some w1 \<and>
      settled w1 (nextId w) = None \<and> pendingResolve w1 = Some (nextId w) \<and>
      timers w1 = [(nextId w, clock w + debounceDelay)] \<and>
      step (Fire (nextId w)) w1 = None \<and>
      run [Elapse e, Fire (nextId w)] w1 = Some w2 \<and>
      settled w2 (nextId w) = Some None \<and> pendingResolve w2 = None \<and> timers w2 = [] \<and>
      clientCalls w2 = clientCalls w \<and> awaiting w2 = awaiting w \<and>
      (\<forall>tr' w3. run tr' w2 = Some w3 \<longrightarrow> nextId w \<notin> set (clientCalls w3))"
proof -
  let ?i = "nextId w"
  let ?wa = "provideInlineCompletionItems prefix token w"
  let ?w1 = "?wa\<lparr>clock := clock ?wa + d, cancelled := token # cancelled ?wa\<rparr>"
  let ?wc = "?w1\<lparr>clock := clock ?w1 + e\<rparr>"
  let ?w2 = "(callResolve ?i None (clearTimeout ?i ?wc))
               \<lparr>pendingResolve := None, lastDebounceInput := None\<rparr>"
  have i: "coordInv w" using r by (rule inv_reachable)
  note f = after_inline_call [OF i conf np, where token = token]
  have r1: "run [Provide prefix token, Elapse d, Cancel token] w = Some ?w1" by simp
  have i1: "coordInv ?w1" using i r1 by (rule inv_run)
  have s1: "settled ?w1 ?i = None" using f(6) by (simp add: settled_def)
  have p1: "pendingResolve ?w1 = Some ?i" using f(3) by simp
  have t1: "timers ?w1 = [(?i, clock w + debounceDelay)]" using f(5) by simp
  have n1: "step (Fire ?i) ?w1 = None" using f(5,8) d by simp
  have ic: "coordInv ?wc" using i1 by (simp add: inv_frame)
  have en: "list_ex (\<lambda>t. fst t = ?i \<and> snd t \<le> clock ?wc) (timers ?wc)"
    using f(5,8) e by simp
  from fire_fields [OF ic en] have cb: "timerCallback (clearTimeout ?i ?wc) = ?w2"
    using f(4) by simp
  have r2: "run [Elapse e, Fire ?i] ?w1 = Some ?w2"
    using en cb by simp
  have i2: "coordInv ?w2" using i1 r2 by (rule inv_run)
  have s2: "settled ?w2 ?i = Some None"
    using f(6) unfolding settled_def callResolve_def clearTimeout_def
    by (simp add: map_of_snoc del: map_of_append)
  have p2: "pendingResolve ?w2 = None" by simp
  have t2: "timers ?w2 = []" using f(5) by (simp add: callResolve_def clearTimeout_def)
  have c2: "clientCalls ?w2 = clientCalls w" using f(9)
    by (simp add: callResolve_def clearTimeout_def)
  have a2: "awaiting ?w2 = awaiting w" using f(10)
    by (simp add: callResolve_def clearTimeout_def)
  have never: "?i \<notin> set (clientCalls w3)" if "run tr' ?w2 = Some w3" for tr' w3
  proof -
    have "?i < nextId ?w2" using f(7) by (simp add: callResolve_def clearTimeout_def)
    moreover have "?i \<notin> fst ` set (timers ?w2)" using t2 by simp
    moreover have "?i \<notin> set (clientCalls ?w2)"
      using invD(4) [OF i] unfolding c2 invIds_def ids_def by auto
    ultimately show ?thesis using i2 that by (intro not_dispatched_later [of ?w2 ?i tr' w3])
  qed
  from r1 s1 p1 t1 n1 r2 s2 p2 t2 c2 a2 never show ?thesis by blast
qed

text \<open>C5 as amended, at a cancellation 10 ms after the call.\<close>

theorem cancellation_checked_at_timer_witness:
  "run [Provide ''x'' 4, Elapse 10, Cancel 4] (initial True) =
     Some \<lparr>configured = True, pendingResolve = Some 0, lastDebounceInput = Some (0, 4),
       debounceTimer = Some 0, clock = 10, timers = [(0, 500)], awaiting = [],
       resolveCalls = [], inlinePromises = [0], clientCalls = [], promptCalls = [],
       cancelled = [4], outOfRange = [], nextId = 1\<rparr> \<and>
   (\<exists>w2. run [Elapse 490, Fire 0]
       \<lparr>configured = True, pendingResolve = Some 0, lastDebounceInput = Some (0, 4),
         debounceTimer = Some 0, clock = 10, timers = [(0, 500)], awaiting = [],
         resolveCalls = [], inlinePromises = [0], clientCalls = [], promptCalls = [],
         cancelled = [4], outOfRange = [], nextId = 1\<rparr> = Some w2 \<and>
      settled w2 0 = Some None \<and> pendingResolve w2 = None \<and> clientCalls w2 = [])"
proof -
  let ?w1 = "\<lparr>configured = True, pendingResolve = Some 0, lastDebounceInput = Some (0, 4),
       debounceTimer = Some 0, clock = 10, timers = [(0, 500)], awaiting = [],
       resolveCalls = [], inlinePromises = [0], clientCalls = [], promptCalls = [],
       cancelled = [4], outOfRange = [], nextId = 1\<rparr>"
  have r: "run [] (initial True) = Some (initial True)" by simp
  have c: "configured (initial True)" by (simp add: initial_def)
  have np: "\<not> isPromptBasedGeneration ''x''" by code_simp
  have d: "(10::nat) < debounceDelay" and e: "debounceDelay \<le> 10 + (490::nat)"
    by (simp_all add: debounceDelay_def)
  have r1: "run [Provide ''x'' 4, Elapse 10, Cancel 4] (initial True) = Some ?w1"
    by code_simp
  from cancellation_checked_at_timer [OF r c np d e, of 4]
  obtain w1 w2 where "run [Provide ''x'' 4, Elapse 10, Cancel 4] (initial True) = Some w1"
    and "run [Elapse 490, Fire (nextId (initial True))] w1 = Some w2"
    and "settled w2 (nextId (initial True)) = Some None" and "pendingResolve w2 = None"
    and "clientCalls w2 = clientCalls (initial True)"
    by blast
  moreover have "nextId (initial True) = 0" "clientCalls (initial True) = []"
    by (simp_all add: initial_def)
  ultimately have "run [Elapse 490, Fire 0] ?w1 = Some w2 \<and>
      settled w2 0 = Some None \<and> pendingResolve w2 = None \<and> clientCalls w2 = []"
    using r1 by simp
  with r1 show ?thesis by blast
qed

text \<open>
  C5 as the specification states it fails: 10 ms after the call, right after the
  cancellation, no resolver has been called and the timer is still armed.
\<close>

theorem cancellation_not_immediate_counterexample:
  "run [Provide ''x'' 4, Elapse 10, Cancel 4] (initial True) =
     Some \<lparr>configured = True, pendingResolve = Some 0, lastDebounceInput = Some (0, 4),
       debounceTimer = Some 0, clock = 10, timers = [(0, 500)], awaiting = [],
       resolveCalls = [], inlinePromises = [0], clientCalls = [], promptCalls = [],
       cancelled = [4], outOfRange = [], nextId = 1\<rparr>"
  by code_simp

end
